theory Spec2Isabelle
  imports Main "HOL-Library.Char_ord" "HOL-Library.List_Lexorder" "HOL-Library.Product_Lexorder"
    "HOL-Library.Multiset"
begin

section \<open>Characters and strings as the scripts use them\<close>

text \<open>
  A text is a \<^typ>\<open>string\<close>, and a \<^typ>\<open>char\<close> is a code point from 0 to 255
  (ASCII and the Latin-1 supplement, which holds the Norwegian letters); texts with code
  points above 255 are not represented. The character classes are those of Python's
  \<^verbatim>\<open>re\<close> module on \<^verbatim>\<open>str\<close> patterns and of \<^verbatim>\<open>str.strip\<close>, on all 256
  code points: \<^verbatim>\<open>\s\<close> and \<^verbatim>\<open>strip()\<close> share one whitespace set, which has the
  control characters 9 to 13 and 28 to 31, the space, the next-line control 133 and the
  no-break space 160; \<^verbatim>\<open>\d\<close> is a decimal digit; \<^verbatim>\<open>\w\<close> is the underscore or an
  alphanumeric character, which covers the ASCII and Latin-1 letters and the Latin-1
  ordinal indicators, superscript digits, micro sign and fractions.
\<close>

datatype py_exn = KeyError | AttributeError | JSONDecodeError | OtherError

definition in_range :: "nat \<Rightarrow> nat \<Rightarrow> char \<Rightarrow> bool" where
  "in_range a b c = (a \<le> of_char c \<and> (of_char c :: nat) \<le> b)"

definition is_space :: "char \<Rightarrow> bool" where
  "is_space c = (in_range 9 13 c \<or> in_range 28 32 c \<or> in_range 133 133 c \<or> in_range 160 160 c)"

definition is_digit :: "char \<Rightarrow> bool" where
  "is_digit c = in_range 48 57 c"

text \<open>The capital letters: the characters that lower-casing changes.\<close>

definition is_upper :: "char \<Rightarrow> bool" where
  "is_upper c = (in_range 65 90 c \<or> in_range 192 214 c \<or> in_range 216 222 c)"

definition is_word :: "char \<Rightarrow> bool" where
  "is_word c =
     (in_range 48 57 c \<or> in_range 65 90 c \<or> in_range 95 95 c \<or> in_range 97 122 c
      \<or> in_range 170 170 c \<or> in_range 178 179 c \<or> in_range 181 181 c \<or> in_range 185 186 c
      \<or> in_range 188 190 c \<or> in_range 192 214 c \<or> in_range 216 246 c \<or> in_range 248 255 c)"

text \<open>
  Under \<^verbatim>\<open>re.IGNORECASE\<close> two of these characters match when their lower-case forms
  are equal; a capital letter and its lower-case form are 32 code points apart.
\<close>

definition lower :: "char \<Rightarrow> char" where
  "lower c = (if is_upper c then char_of (of_char c + (32 :: nat)) else c)"

text \<open>\<^verbatim>\<open>s.strip()\<close>: leading and trailing whitespace removed.\<close>

definition strip :: "string \<Rightarrow> string" where
  "strip s = rev (dropWhile is_space (rev (dropWhile is_space s)))"

text \<open>
  The same notions said without reference to how the code computes them, for the
  statements below. Two characters are the same letter when they are equal or one is the
  capital of the other.
\<close>

definition capital_of :: "char \<Rightarrow> char \<Rightarrow> bool" where
  "capital_of u l = (is_upper u \<and> (of_char l :: nat) = of_char u + 32)"

definition same_letter :: "char \<Rightarrow> char \<Rightarrow> bool" where
  "same_letter a c = (a = c \<or> capital_of a c \<or> capital_of c a)"

text \<open>
  \<open>c\<close> is \<open>s\<close> without its leading and trailing whitespace: \<open>s\<close> is \<open>c\<close> between two
  runs of whitespace, and \<open>c\<close> neither starts nor ends with whitespace.
\<close>

definition is_trim_of :: "string \<Rightarrow> string \<Rightarrow> bool" where
  "is_trim_of s c =
     (\<exists>a b. s = a @ c @ b \<and> list_all is_space a \<and> list_all is_space b
        \<and> (c = [] \<or> (\<not> is_space (hd c) \<and> \<not> is_space (last c))))"

section \<open>Name tables and the removal of consecutive duplicates\<close>

text \<open>
  A row of the name table built by \<^verbatim>\<open>extract_names_to_dataframe\<close>. The columns the
  scripts read are fields; the remaining columns (page directory, confidence, image
  file name) travel in the record's extension.
\<close>

record name_row =
  name :: string
  book_id :: string
  page_number :: int

text \<open>
  \<^verbatim>\<open>df['name'].shift()\<close>: every value moves one row down, the first row gets the
  missing value.
\<close>

definition shift :: "'a list \<Rightarrow> 'a option list" where
  "shift xs = (case xs of [] \<Rightarrow> [] | _ # _ \<Rightarrow> None # map Some (butlast xs))"

text \<open>
  \<^verbatim>\<open>df[df['name'] != df['name'].shift()]\<close>: a row stays when its name differs from
  the value shifted onto it. The missing value differs from every name.
\<close>

definition drop_consecutive :: "('a name_row_scheme) list \<Rightarrow> ('a name_row_scheme) list" where
  "drop_consecutive df =
     map fst (filter (\<lambda>(r, p). Some (name r) \<noteq> p) (zip df (shift (map name df))))"

text \<open>
  An auxiliary reading of the same filter, used in the proofs only: one pass over the
  rows that carries the name of the previous row.
\<close>

fun keep_new :: "string option \<Rightarrow> ('a name_row_scheme) list \<Rightarrow> ('a name_row_scheme) list" where
  "keep_new p [] = []"
| "keep_new p (r # rs) =
     (if Some (name r) \<noteq> p then r # keep_new (Some (name r)) rs
      else keep_new (Some (name r)) rs)"

text \<open>
  \<^verbatim>\<open>extract_names_to_dataframe\<close> of \<^verbatim>\<open>extract_portrait_names_Dolphin.py\<close>, from the
  list \<^verbatim>\<open>data\<close> of collected rows on. A frame built from an empty list has no
  columns, and the column lookup raises \<^verbatim>\<open>KeyError\<close>.
\<close>

definition extract_names_to_dataframe_portrait ::
    "('a name_row_scheme) list \<Rightarrow> py_exn + ('a name_row_scheme) list" where
  "extract_names_to_dataframe_portrait data =
     (if data = [] then Inl KeyError else Inr (drop_consecutive data))"

text \<open>
  \<^verbatim>\<open>extract_names_to_dataframe\<close> of \<^verbatim>\<open>extract_all_names_Dolphin.py\<close>: the rows are
  first sorted by book id and page number (a stable sort on the pair), then filtered.
\<close>

definition extract_names_to_dataframe_all ::
    "('a name_row_scheme) list \<Rightarrow> py_exn + ('a name_row_scheme) list" where
  "extract_names_to_dataframe_all data =
     (if data = [] then Inl KeyError
      else Inr (drop_consecutive (sort_key (\<lambda>r. (book_id r, page_number r)) data)))"

section \<open>The segmenter: \<^verbatim>\<open>chunk_markdown_by_names\<close>\<close>

text \<open>
  \<^verbatim>\<open>re.search(re.escape(p), t, re.IGNORECASE)\<close>: the escaped pattern is the literal
  \<open>p\<close>, compared character by character without regard to case. \<open>match_at p t\<close>
  says that \<open>p\<close> matches at the head of \<open>t\<close>; \<open>search p t\<close> is the start of the
  leftmost match, \<open>None\<close> when there is none. The empty pattern matches at 0.
\<close>

fun match_at :: "string \<Rightarrow> string \<Rightarrow> bool" where
  "match_at [] t = True"
| "match_at (a # p) [] = False"
| "match_at (a # p) (c # t) = (lower a = lower c \<and> match_at p t)"

fun search :: "string \<Rightarrow> string \<Rightarrow> nat option" where
  "search p [] = (if p = [] then Some 0 else None)"
| "search p (c # t) =
     (if match_at p (c # t) then Some 0 else map_option Suc (search p t))"

text \<open>\<^verbatim>\<open>re.sub(r'[^\w\s]', '', name)\<close>: only word characters and whitespace stay.\<close>

definition simplified_name :: "string \<Rightarrow> string" where
  "simplified_name nm = filter (\<lambda>c. is_word c \<or> is_space c) nm"

text \<open>The exact search, and the retry with the simplified name when it finds nothing.\<close>

definition find_name :: "string \<Rightarrow> string \<Rightarrow> nat option" where
  "find_name nm t =
     (case search nm t of
        Some i \<Rightarrow> Some i
      | None \<Rightarrow> search (simplified_name nm) t)"

text \<open>\<^verbatim>\<open>t[a:b]\<close> for \<open>0 \<le> a\<close> and \<open>0 \<le> b\<close>; empty when \<open>b \<le> a\<close>.\<close>

definition slice :: "string \<Rightarrow> nat \<Rightarrow> nat \<Rightarrow> string" where
  "slice t a b = take (b - a) (drop a t)"

text \<open>
  The end position of the chunk that starts at \<open>start_pos\<close>: the next name is searched
  in the text from \<open>start_pos + len(name)\<close> on; without a next name, or when the next
  name is not found there, the chunk runs to the end of the text.
\<close>

definition end_pos :: "string \<Rightarrow> string \<Rightarrow> string option \<Rightarrow> nat \<Rightarrow> nat" where
  "end_pos t nm next_name start_pos =
     (case next_name of
        None \<Rightarrow> length t
      | Some nn \<Rightarrow>
          (case find_name nn (drop (start_pos + length nm) t) of
             Some off \<Rightarrow> start_pos + length nm + off
           | None \<Rightarrow> length t))"

text \<open>One iteration of the loop: the chunk appended for \<open>nm\<close>.\<close>

definition chunk_for :: "string \<Rightarrow> string \<Rightarrow> string option \<Rightarrow> string" where
  "chunk_for t nm next_name =
     (case find_name nm t of
        Some start_pos \<Rightarrow> strip (slice t start_pos (end_pos t nm next_name start_pos))
      | None \<Rightarrow> [])"

text \<open>
  The loop over \<^verbatim>\<open>enumerate(names_list)\<close>; \<^verbatim>\<open>names_list[i + 1]\<close> is the head of the
  remaining list. The first argument is the content read from the markdown file.
\<close>

fun chunk_markdown_by_names :: "string \<Rightarrow> string list \<Rightarrow> string list" where
  "chunk_markdown_by_names t [] = []"
| "chunk_markdown_by_names t (nm # rest) =
     chunk_for t nm (case rest of [] \<Rightarrow> None | nn # _ \<Rightarrow> Some nn)
       # chunk_markdown_by_names t rest"

text \<open>
  \<^verbatim>\<open>add_chunks_to_dataframe\<close>: the chunks become the column \<^verbatim>\<open>markdown_chunk\<close>,
  one per row and in row order.
\<close>

definition add_chunks_to_dataframe ::
    "('a name_row_scheme) list \<Rightarrow> string \<Rightarrow> ('a name_row_scheme \<times> string) list" where
  "add_chunks_to_dataframe df t = zip df (chunk_markdown_by_names t (map name df))"

text \<open>
  The segmentation as the design document words it, for comparison: the chunk of a name
  starts at the first occurrence of the name and ends immediately before the first
  occurrence of the next name after that starting point; the last chunk runs to the end
  of the text.
\<close>

definition spec_chunk_for :: "string \<Rightarrow> string \<Rightarrow> string option \<Rightarrow> string" where
  "spec_chunk_for t nm next_name =
     (case search nm t of
        None \<Rightarrow> []
      | Some s \<Rightarrow>
          (case next_name of
             None \<Rightarrow> drop s t
           | Some nn \<Rightarrow>
               (case search nn (drop (Suc s) t) of
                  Some off \<Rightarrow> slice t s (Suc s + off)
                | None \<Rightarrow> drop s t)))"

fun spec_chunks :: "string \<Rightarrow> string list \<Rightarrow> string list" where
  "spec_chunks t [] = []"
| "spec_chunks t (nm # rest) =
     spec_chunk_for t nm (case rest of [] \<Rightarrow> None | nn # _ \<Rightarrow> Some nn) # spec_chunks t rest"

text \<open>
  A name occurs at position \<open>i\<close> of a text when the text has, from \<open>i\<close> on, the
  characters of the name up to case; \<open>i\<close> is its first occurrence when it occurs at no
  earlier position.
\<close>

definition occurs_at :: "string \<Rightarrow> string \<Rightarrow> nat \<Rightarrow> bool" where
  "occurs_at p t i =
     (i + length p \<le> length t \<and> (\<forall>k < length p. same_letter (p ! k) (t ! (i + k))))"

definition first_occurrence :: "string \<Rightarrow> string \<Rightarrow> nat \<Rightarrow> bool" where
  "first_occurrence p t i = (occurs_at p t i \<and> (\<forall>j < i. \<not> occurs_at p t j))"

text \<open>
  The retry as the design document words it, for comparison: the name with all
  punctuation stripped, punctuation being the characters of Python's
  \<^verbatim>\<open>string.punctuation\<close>, among them the comma, the full stop and the underscore.
\<close>

definition is_punctuation :: "char \<Rightarrow> bool" where
  "is_punctuation c =
     (in_range 33 47 c \<or> in_range 58 64 c \<or> in_range 91 96 c \<or> in_range 123 126 c)"

definition without_punctuation :: "string \<Rightarrow> string" where
  "without_punctuation nm = filter (\<lambda>c. \<not> is_punctuation c) nm"

section \<open>The reconciliation script: \<^verbatim>\<open>collecting_all_csv_files_Dolphin.py\<close>\<close>

text \<open>
  A data frame read from a CSV file: its column names and its rows. A cell holds a
  string or is missing (\<open>None\<close>; an empty CSV field is read as the missing value). A row
  gives the cell of every column of its frame.
\<close>

type_synonym cell = "string option"

type_synonym row = "string \<Rightarrow> cell"

record frame =
  columns :: "string list"
  rows :: "row list"

text \<open>
  The elementwise \<^verbatim>\<open>==\<close> of line 20: a missing value equals nothing, not even another
  missing value.
\<close>

definition cell_eq :: "cell \<Rightarrow> cell \<Rightarrow> bool" where
  "cell_eq a b = (case (a, b) of (Some x, Some y) \<Rightarrow> x = y | _ \<Rightarrow> False)"

definition mask_of :: "row \<Rightarrow> row \<Rightarrow> bool" where
  "mask_of failed_row r =
     (cell_eq (r ''name'') (failed_row ''name'') \<and> cell_eq (r ''book_id'') (failed_row ''book_id''))"

text \<open>\<^verbatim>\<open>df.loc[mask, col] = v\<close>: the cell of column \<open>col\<close> is set in every masked row.\<close>

definition loc_set :: "bool list \<Rightarrow> string \<Rightarrow> cell \<Rightarrow> row list \<Rightarrow> row list" where
  "loc_set msk col v rs = map (\<lambda>(m, r). if m then r(col := v) else r) (zip msk rs)"

text \<open>
  Lines 24 to 26: the loop over the columns of the retry frame, with the mask computed
  before it.
\<close>

fun update_columns :: "string list \<Rightarrow> string list \<Rightarrow> bool list \<Rightarrow> row \<Rightarrow> row list \<Rightarrow> row list" where
  "update_columns [] merged_cols msk failed_row rs = rs"
| "update_columns (col # cols) merged_cols msk failed_row rs =
     update_columns cols merged_cols msk failed_row
       (if col \<in> set merged_cols then loc_set msk col (failed_row col) rs else rs)"

text \<open>Lines 18 to 26 for one retry row.\<close>

definition update_from_failed_row :: "string list \<Rightarrow> string list \<Rightarrow> row \<Rightarrow> row list \<Rightarrow> row list" where
  "update_from_failed_row failed_cols merged_cols failed_row rs =
     (let msk = map (mask_of failed_row) rs
      in if True \<in> set msk then update_columns failed_cols merged_cols msk failed_row rs
         else rs)"

fun update_from_failed_rows :: "string list \<Rightarrow> string list \<Rightarrow> row list \<Rightarrow> row list \<Rightarrow> row list" where
  "update_from_failed_rows failed_cols merged_cols [] rs = rs"
| "update_from_failed_rows failed_cols merged_cols (failed_row # others) rs =
     update_from_failed_rows failed_cols merged_cols others
       (update_from_failed_row failed_cols merged_cols failed_row rs)"

text \<open>
  Lines 15 to 27. The key columns are looked up in both frames in every iteration; a
  missing key column raises \<^verbatim>\<open>KeyError\<close> in the first iteration. With no retry row the
  loop body never runs.
\<close>

definition merge_failed :: "frame \<Rightarrow> frame \<Rightarrow> py_exn + frame" where
  "merge_failed df_main df_failed =
     (if rows df_failed = [] then Inr df_main
      else if ''name'' \<in> set (columns df_main) \<and> ''name'' \<in> set (columns df_failed)
            \<and> ''book_id'' \<in> set (columns df_main) \<and> ''book_id'' \<in> set (columns df_failed)
      then Inr (df_main\<lparr>rows :=
             update_from_failed_rows (columns df_failed) (columns df_main)
               (rows df_failed) (rows df_main)\<rparr>)
      else Inl KeyError)"

text \<open>
  \<^verbatim>\<open>df[[c1, ..., cn]]\<close>: the frame with the listed columns only; \<^verbatim>\<open>KeyError\<close> when
  one of them is not a column.
\<close>

definition select_columns :: "string list \<Rightarrow> frame \<Rightarrow> py_exn + frame" where
  "select_columns cols df =
     (if set cols \<subseteq> set (columns df)
      then Inr \<lparr>columns = cols, rows = map (\<lambda>r c. if c \<in> set cols then r c else None) (rows df)\<rparr>
      else Inl KeyError)"

text \<open>
  The script from line 11 to line 50, as it is written. Line 50 calls
  \<^verbatim>\<open>.reset_index\<close> on the value of \<^verbatim>\<open>drop(..., inplace=True)\<close>, which is
  \<^verbatim>\<open>None\<close>: once the frames are loaded and the columns are found, the statement raises
  \<^verbatim>\<open>AttributeError\<close>, before \<^verbatim>\<open>df_final\<close> is computed. The outer merge and the
  \<^verbatim>\<open>combine_first\<close> of lines 45 and 48 raise nothing and their value is lost with the
  exception.
\<close>

definition script_to_line_50 :: "frame \<Rightarrow> frame \<Rightarrow> frame \<Rightarrow> frame \<Rightarrow> py_exn + frame" where
  "script_to_line_50 df_main df_failed df_portrait_single df_next_page_portraits =
     (case merge_failed df_main df_failed of
        Inl e \<Rightarrow> Inl e
      | Inr df_merged \<Rightarrow>
          (case select_columns [''name'', ''book_id'', ''image_filename''] df_portrait_single of
             Inl e \<Rightarrow> Inl e
           | Inr single \<Rightarrow>
               (case select_columns [''name'', ''book_id'', ''portrait_filename'']
                       df_next_page_portraits of
                  Inl e \<Rightarrow> Inl e
                | Inr next_page \<Rightarrow> Inl AttributeError)))"

text \<open>
  The retry rows that match a base row, in the order of the retry frame. The last of
  them is the one whose values the base row ends up with.
\<close>

definition matching :: "row list \<Rightarrow> row \<Rightarrow> row list" where
  "matching failed_rows r = filter (\<lambda>f. mask_of f r) failed_rows"

text \<open>The cells of one column of a computed frame, top to bottom.\<close>

definition column_values :: "string \<Rightarrow> py_exn + frame \<Rightarrow> cell list" where
  "column_values c res = (case res of Inr df \<Rightarrow> map (\<lambda>r. r c) (rows df) | Inl e \<Rightarrow> [])"

text \<open>Small frames for the concrete cases: one person, one book.\<close>

definition person_row :: "cell \<Rightarrow> cell \<Rightarrow> row" where
  "person_row chunk bio =
     (\<lambda>c. None)(''name'' := Some ''X'', ''book_id'' := Some ''B1'',
        ''markdown_chunk'' := chunk, ''biography_json'' := bio)"

definition person_frame :: "row list \<Rightarrow> frame" where
  "person_frame rs =
     \<lparr>columns = [''name'', ''book_id'', ''markdown_chunk'', ''biography_json''], rows = rs\<rparr>"

definition portrait_row :: "string \<Rightarrow> cell \<Rightarrow> row" where
  "portrait_row col img = (\<lambda>c. None)(''name'' := Some ''X'', ''book_id'' := Some ''B1'', col := img)"

definition portrait_frame :: "string \<Rightarrow> row list \<Rightarrow> frame" where
  "portrait_frame col rs = \<lparr>columns = [''name'', ''book_id'', col], rows = rs\<rparr>"

text \<open>
  A base row after the retry rows \<open>ms\<close> that match it have been applied in order: the
  columns that both frames have hold the values of the last of them.
\<close>

definition overwrite :: "string list \<Rightarrow> string list \<Rightarrow> row list \<Rightarrow> row \<Rightarrow> row" where
  "overwrite fc mc ms r =
     (case ms of [] \<Rightarrow> r
      | _ # _ \<Rightarrow> (\<lambda>c. if c \<in> set fc \<and> c \<in> set mc then last ms c else r c))"

section \<open>The book grouper of \<^verbatim>\<open>azure_portrait_associator_Dolphin.py\<close>\<close>

text \<open>\<^verbatim>\<open>md_filename.replace('.md', '')\<close>: every occurrence of \<^verbatim>\<open>.md\<close> is removed,
  scanning from the left. The first argument of the scan counts the characters of an
  occurrence that are still to be skipped.\<close>

fun remove_md_from :: "nat \<Rightarrow> string \<Rightarrow> string" where
  "remove_md_from n [] = []"
| "remove_md_from (Suc n) (c # t) = remove_md_from n t"
| "remove_md_from 0 (c # t) =
     (if c = CHR ''.'' \<and> take 2 t = ''md'' then remove_md_from 2 t
      else c # remove_md_from 0 t)"

definition remove_md :: "string \<Rightarrow> string" where
  "remove_md s = remove_md_from 0 s"

text \<open>
  \<^verbatim>\<open>re.search(r'_(\d+)$', s)\<close>: the leftmost underscore that is followed by digits up
  to the end of the string (\<^verbatim>\<open>$\<close> also matches before a final newline); the value
  is the captured run of digits.
\<close>

definition digits_to_end :: "string \<Rightarrow> bool" where
  "digits_to_end t =
     (takeWhile is_digit t \<noteq> [] \<and>
      (dropWhile is_digit t = [] \<or> dropWhile is_digit t = [CHR 0x0A]))"

fun page_suffix :: "string \<Rightarrow> string option" where
  "page_suffix [] = None"
| "page_suffix (c # t) =
     (if c = CHR ''_'' \<and> digits_to_end t then Some (takeWhile is_digit t) else page_suffix t)"

text \<open>\<^verbatim>\<open>int(ds)\<close> for a string of decimal digits.\<close>

definition digit_value :: "char \<Rightarrow> int" where
  "digit_value c = int (of_char c) - 48"

definition int_of_digits :: "string \<Rightarrow> int" where
  "int_of_digits ds = foldl (\<lambda>n c. 10 * n + digit_value c) 0 ds"

definition get_page_number :: "string \<Rightarrow> int" where
  "get_page_number md_filename =
     (case page_suffix (remove_md md_filename) of
        Some ds \<Rightarrow> int_of_digits ds
      | None \<Rightarrow> 0)"

text \<open>\<^verbatim>\<open>s.split('_')\<close> and \<^verbatim>\<open>'_'.join(parts)\<close>.\<close>

fun split_underscore :: "string \<Rightarrow> string list" where
  "split_underscore [] = [[]]"
| "split_underscore (c # t) =
     (case split_underscore t of
        [] \<Rightarrow> [[c]]
      | p # ps \<Rightarrow> if c = CHR ''_'' then [] # p # ps else (c # p) # ps)"

fun join_underscore :: "string list \<Rightarrow> string" where
  "join_underscore [] = []"
| "join_underscore [p] = p"
| "join_underscore (p # q # ps) = p @ CHR ''_'' # join_underscore (q # ps)"

definition get_book_id :: "string \<Rightarrow> string" where
  "get_book_id md_filename =
     (let name_without_ext = remove_md md_filename;
          parts = split_underscore name_without_ext
      in if length parts \<ge> 4 then join_underscore (butlast parts) else name_without_ext)"

text \<open>
  \<^verbatim>\<open>books[book_id].append(md_file)\<close> on the \<^verbatim>\<open>defaultdict(list)\<close>: the dictionary is
  an association list in insertion order.
\<close>

fun append_to :: "string \<Rightarrow> string \<Rightarrow> (string \<times> string list) list \<Rightarrow> (string \<times> string list) list" where
  "append_to b f [] = [(b, [f])]"
| "append_to b f ((k, fs) # books) =
     (if k = b then (k, fs @ [f]) # books else (k, fs) # append_to b f books)"

text \<open>
  \<^verbatim>\<open>find_markdown_files\<close>, from the names of the files that the glob \<^verbatim>\<open>*.md\<close> yields,
  in the order in which it yields them. Every file is put under its book id; then the
  files of each book are sorted by page number with the stable sort of Python lists.
\<close>

definition group_files :: "string list \<Rightarrow> (string \<times> string list) list" where
  "group_files md_files = foldl (\<lambda>books f. append_to (get_book_id f) f books) [] md_files"

definition find_markdown_files :: "string list \<Rightarrow> (string \<times> string list) list" where
  "find_markdown_files md_files =
     map (\<lambda>(b, fs). (b, sort_key get_page_number fs)) (group_files md_files)"

section \<open>Portraits on pages that start with a figure: \<^verbatim>\<open>extract_all_names_Dolphin.py\<close>\<close>

text \<open>\<^verbatim>\<open>s.startswith(p)\<close>.\<close>

definition startswith :: "string \<Rightarrow> string \<Rightarrow> bool" where
  "startswith s p = (take (length p) s = p)"

text \<open>
  The entries that \<^verbatim>\<open>find_files_starting_with_figures\<close> collects; the file path and
  the file size, which nothing reads afterwards, travel in the extension.
\<close>

record file_info =
  file_name :: string
  first_line :: string

text \<open>
  The first line as line 124 stores it: the text before the first newline, cut to 100
  characters and followed by three dots when it is longer.
\<close>

definition first_line_of :: "string \<Rightarrow> string" where
  "first_line_of content =
     (let l = takeWhile (\<lambda>c. c \<noteq> CHR 0x0A) content
      in if length l > 100 then take 100 l @ ''...'' else l)"

text \<open>
  \<^verbatim>\<open>find_files_starting_with_figures\<close>, from the names and contents of the files that
  the glob yields and that can be read (a file that cannot be read is reported and left
  out).
\<close>

definition starts_with_figure :: "string \<Rightarrow> bool" where
  "starts_with_figure content =
     (startswith (strip content) ''![Figure]'' \<or> startswith (strip content) ''![Figure('')"

definition find_files_starting_with_figures :: "(string \<times> string) list \<Rightarrow> file_info list" where
  "find_files_starting_with_figures digibok_files =
     map (\<lambda>(nm, content). \<lparr>file_name = nm, first_line = first_line_of (strip content)\<rparr>)
       (filter (\<lambda>(nm, content). starts_with_figure content) digibok_files)"

text \<open>
  \<^verbatim>\<open>re.search(r'!\[Figure\]\(figures/([^)]+)\)', first_line)\<close>: the leftmost place
  where the literal \<^verbatim>\<open>![Figure](figures/\<close> is followed by at least one character
  other than \<^verbatim>\<open>)\<close> and then by \<^verbatim>\<open>)\<close>; the value is the captured group.
\<close>

definition figure_at :: "string \<Rightarrow> string option" where
  "figure_at s =
     (if startswith s ''![Figure](figures/''
      then (let r = drop (length ''![Figure](figures/'') s;
                g = takeWhile (\<lambda>c. c \<noteq> CHR '')'') r
            in if g \<noteq> [] \<and> dropWhile (\<lambda>c. c \<noteq> CHR '')'') r \<noteq> [] then Some g else None)
      else None)"

fun figure_match :: "string \<Rightarrow> string option" where
  "figure_match [] = None"
| "figure_match (c # s) =
     (case figure_at (c # s) of Some g \<Rightarrow> Some g | None \<Rightarrow> figure_match s)"

text \<open>
  \<^verbatim>\<open>re.search(r'(digibok_\d+_)(\d+)\.md', file_name)\<close>: the leftmost place where
  \<^verbatim>\<open>digibok_\<close>, a run of digits, an underscore, a second run of digits and \<^verbatim>\<open>.md\<close>
  follow each other; the value is the pair of the two groups.
\<close>

definition current_at :: "string \<Rightarrow> (string \<times> string) option" where
  "current_at s =
     (if startswith s ''digibok_''
      then (let r = drop (length ''digibok_'') s;
                d1 = takeWhile is_digit r;
                r1 = dropWhile is_digit r;
                d2 = takeWhile is_digit (drop 1 r1);
                r2 = dropWhile is_digit (drop 1 r1)
            in if d1 \<noteq> [] \<and> startswith r1 ''_'' \<and> d2 \<noteq> [] \<and> startswith r2 ''.md''
               then Some (''digibok_'' @ d1 @ ''_'', d2) else None)
      else None)"

fun current_match :: "string \<Rightarrow> (string \<times> string) option" where
  "current_match [] = None"
| "current_match (c # s) =
     (case current_at (c # s) of Some m \<Rightarrow> Some m | None \<Rightarrow> current_match s)"

text \<open>
  The decimal digits of a natural number, and \<^verbatim>\<open>f"{n:04d}"\<close>: at least four
  characters, filled with zeros on the left; the sign of a negative number counts as one
  of the four.
\<close>

definition digit_char :: "nat \<Rightarrow> char" where
  "digit_char d = char_of (48 + d)"

fun digits_of :: "nat \<Rightarrow> string" where
  "digits_of n = (if n < 10 then [digit_char n] else digits_of (n div 10) @ [digit_char (n mod 10)])"

declare digits_of.simps [simp del]

definition zfill :: "nat \<Rightarrow> string \<Rightarrow> string" where
  "zfill w s = replicate (w - length s) (CHR ''0'') @ s"

definition format_04d :: "int \<Rightarrow> string" where
  "format_04d n =
     (if n < 0 then CHR ''-'' # zfill 3 (digits_of (nat (- n))) else zfill 4 (digits_of (nat n)))"

text \<open>Lines 207 to 217: the id of the page before the page of a file.\<close>

definition previous_book_id :: "string \<Rightarrow> string option" where
  "previous_book_id fname =
     (case current_match fname of
        None \<Rightarrow> None
      | Some (book_prefix, ds) \<Rightarrow> Some (book_prefix @ format_04d (int_of_digits ds - 1)))"

text \<open>
  The table with its new column: a row and its \<^verbatim>\<open>portrait_filename\<close>. Line 224 takes
  the last row whose book id is the id looked for.
\<close>

definition last_row_of :: "string \<Rightarrow> ('a name_row_scheme \<times> string) list \<Rightarrow> nat option" where
  "last_row_of b df =
     (case filter (\<lambda>i. book_id (fst (df ! i)) = b) [0..<length df] of
        [] \<Rightarrow> None
      | i # more_rows \<Rightarrow> Some (last (i # more_rows)))"

text \<open>One iteration of the loop of \<^verbatim>\<open>associate_portraits_with_names\<close>.\<close>

definition associate_one ::
    "('a name_row_scheme \<times> string) list \<Rightarrow> 'b file_info_scheme \<Rightarrow> ('a name_row_scheme \<times> string) list" where
  "associate_one df fi =
     (case figure_match (first_line fi) of
        None \<Rightarrow> df
      | Some portrait \<Rightarrow>
          (case previous_book_id (file_name fi) of
             None \<Rightarrow> df
           | Some prev \<Rightarrow>
               (case last_row_of prev df of
                  None \<Rightarrow> df
                | Some i \<Rightarrow> df[i := (fst (df ! i), portrait)])))"

text \<open>
  \<^verbatim>\<open>associate_portraits_with_names\<close>: the new column starts empty in every row, then
  the files are gone through in order.
\<close>

definition associate_portraits_with_names ::
    "('a name_row_scheme) list \<Rightarrow> ('b file_info_scheme) list \<Rightarrow> ('a name_row_scheme \<times> string) list" where
  "associate_portraits_with_names df files = foldl associate_one (map (\<lambda>r. (r, [])) df) files"

text \<open>
  Row \<open>i\<close> is the last row of the table whose book id is \<open>b\<close>: the last name on the
  page \<open>b\<close>.
\<close>

definition last_name_on :: "string \<Rightarrow> ('a name_row_scheme) list \<Rightarrow> nat \<Rightarrow> bool" where
  "last_name_on b df i =
     (i < length df \<and> book_id (df ! i) = b \<and> (\<forall>j. i < j \<and> j < length df \<longrightarrow> book_id (df ! j) \<noteq> b))"

section \<open>Properties of the name tables\<close>

lemma zip_butlast: "length ys = Suc (length xs) \<Longrightarrow> zip xs (butlast ys) = zip xs ys"
proof (induction xs arbitrary: ys)
  case Nil
  then show ?case by simp
next
  case (Cons x xs)
  then obtain y ys' where ys: "ys = y # ys'" and len: "length ys' = Suc (length xs)"
    by (cases ys) auto
  then have "ys' \<noteq> []" by auto
  with Cons.IH[OF len] ys show ?case by simp
qed

lemma drop_consecutive_zip:
  "drop_consecutive df =
     map fst (filter (\<lambda>(r, p). Some (name r) \<noteq> p) (zip df (None # map Some (map name df))))"
proof (cases df)
  case Nil
  then show ?thesis by (simp add: drop_consecutive_def shift_def)
next
  case (Cons r rs)
  have "zip df (butlast (None # map Some (map name df))) = zip df (None # map Some (map name df))"
    by (rule zip_butlast) simp
  moreover have "shift (map name df) = butlast (None # map Some (map name df))"
    using Cons by (simp add: shift_def map_butlast)
  ultimately show ?thesis by (simp add: drop_consecutive_def)
qed

text \<open>
  The filter read as a left-to-right pass that remembers the name of the previous row.
\<close>

lemma keep_new_zip:
  "map fst (filter (\<lambda>(r, p). Some (name r) \<noteq> p) (zip df (q # map Some (map name df))))
     = keep_new q df"
  by (induction df arbitrary: q) auto

lemma drop_consecutive_keep_new: "drop_consecutive df = keep_new None df"
  unfolding drop_consecutive_zip by (rule keep_new_zip)

lemma keep_new_names: "map name (keep_new (Some x) df) = tl (remdups_adj (x # map name df))"
  by (induction df arbitrary: x) auto

lemma drop_consecutive_names: "map name (drop_consecutive df) = remdups_adj (map name df)"
proof (cases df)
  case Nil
  then show ?thesis by (simp add: drop_consecutive_keep_new)
next
  case (Cons r rs)
  then show ?thesis
    using keep_new_names[of "name r" rs] by (simp add: drop_consecutive_keep_new)
qed

lemma keep_new_nths:
  "keep_new q df =
     map (\<lambda>i. df ! i)
       (filter (\<lambda>i. Some (name (df ! i)) \<noteq> (q # map (Some \<circ> name) df) ! i) [0..<length df])"
proof (induction df arbitrary: q)
  case Nil
  then show ?case by simp
next
  case (Cons r rs)
  have up: "[0..<length (r # rs)] = 0 # map Suc [0..<length rs]"
    by (simp add: upt_conv_Cons map_Suc_upt del: upt_Suc)
  show ?case unfolding up by (simp add: Cons.IH filter_map comp_def)
qed

lemma drop_consecutive_kept:
  "drop_consecutive df =
     map (\<lambda>i. df ! i)
       (filter (\<lambda>i. i = 0 \<or> name (df ! i) \<noteq> name (df ! (i - 1))) [0..<length df])"
proof -
  have "filter (\<lambda>i. Some (name (df ! i)) \<noteq> (None # map (Some \<circ> name) df) ! i) [0..<length df]
      = filter (\<lambda>i. i = 0 \<or> name (df ! i) \<noteq> name (df ! (i - 1))) [0..<length df]"
    by (rule filter_cong) (auto simp: nth_Cons split: nat.splits)
  then show ?thesis unfolding drop_consecutive_keep_new keep_new_nths by simp
qed

section \<open>Properties of the segmenter\<close>

lemma of_char_lower:
  "(of_char (lower c) :: nat) = (if is_upper c then of_char c + 32 else of_char c)"
proof (cases "is_upper c")
  case True
  then have "(of_char c :: nat) + 32 < 256"
    by (auto simp: is_upper_def in_range_def)
  then have "(of_char (char_of ((of_char c :: nat) + 32)) :: nat) = of_char c + 32"
    by simp
  with True show ?thesis by (simp add: lower_def)
next
  case False
  then show ?thesis by (simp add: lower_def)
qed

lemma char_eq_code: "a = c \<longleftrightarrow> (of_char a :: nat) = of_char c"
  by auto

lemma lower_eq_iff: "lower a = lower c \<longleftrightarrow> same_letter a c"
proof -
  have "lower a = lower c \<longleftrightarrow> (of_char (lower a) :: nat) = of_char (lower c)"
    by (rule char_eq_code)
  also have "\<dots> \<longleftrightarrow> same_letter a c"
    unfolding of_char_lower same_letter_def capital_of_def char_eq_code[of a c]
    by (auto simp: is_upper_def in_range_def)
  finally show ?thesis .
qed

lemma match_at_iff:
  "match_at p s \<longleftrightarrow> length p \<le> length s \<and> (\<forall>k < length p. same_letter (p ! k) (s ! k))"
proof (induction p s rule: match_at.induct)
  case (1 t)
  show ?case by simp
next
  case (2 a p)
  show ?case by simp
next
  case (3 a p c t)
  have "(\<forall>k < Suc (length p). same_letter ((a # p) ! k) ((c # t) ! k))
        \<longleftrightarrow> same_letter a c \<and> (\<forall>k < length p. same_letter (p ! k) (t ! k))"
    by (auto simp: less_Suc_eq_0_disj)
  with 3 show ?case by (auto simp: lower_eq_iff)
qed

lemma occurs_at_match: "occurs_at p t i \<longleftrightarrow> i \<le> length t \<and> match_at p (drop i t)"
proof -
  have "length p \<le> length t - i \<and> i \<le> length t \<longleftrightarrow> i + length p \<le> length t" by auto
  moreover have "\<And>k. i + length p \<le> length t \<Longrightarrow> k < length p \<Longrightarrow> drop i t ! k = t ! (i + k)"
    by simp
  ultimately show ?thesis
    unfolding occurs_at_def match_at_iff by (auto simp del: nth_drop)
qed

lemma strip_is_trim: "is_trim_of s (strip s)"
proof -
  let ?a = "takeWhile is_space s"
  let ?r = "dropWhile is_space s"
  let ?b = "rev (takeWhile is_space (rev ?r))"
  have r: "?r = strip s @ ?b"
    unfolding strip_def by (metis rev_append rev_rev_ident takeWhile_dropWhile_id)
  have s: "s = ?a @ strip s @ ?b" using r by (metis takeWhile_dropWhile_id)
  have a: "list_all is_space ?a" by (simp add: list_all_iff) (meson set_takeWhileD)
  have b: "list_all is_space ?b" by (simp add: list_all_iff) (meson set_takeWhileD)
  have e: "strip s = [] \<or> (\<not> is_space (hd (strip s)) \<and> \<not> is_space (last (strip s)))"
  proof (cases "strip s = []")
    case True
    then show ?thesis by simp
  next
    case False
    have l: "\<not> is_space (last (strip s))"
      using False unfolding strip_def
      by (metis hd_dropWhile last_rev rev_is_Nil_conv)
    have "?r \<noteq> []" using False by (metis r Nil_is_append_conv)
    then have "\<not> is_space (hd ?r)" by (rule hd_dropWhile)
    moreover have "hd ?r = hd (strip s)" using r False by (metis hd_append2)
    ultimately show ?thesis using l by simp
  qed
  from s a b e show ?thesis unfolding is_trim_of_def by blast
qed

lemma search_Some_iff: "search p t = Some i \<longleftrightarrow> first_occurrence p t i"
proof (induction t arbitrary: i)
  case Nil
  show ?case by (cases p) (auto simp: first_occurrence_def occurs_at_match)
next
  case (Cons c t)
  show ?case
  proof (cases "match_at p (c # t)")
    case True
    then show ?thesis
      by (auto simp: first_occurrence_def occurs_at_match)
  next
    case False
    have "first_occurrence p (c # t) i \<longleftrightarrow> (\<exists>k. i = Suc k \<and> first_occurrence p t k)"
    proof (cases i)
      case 0
      with False show ?thesis by (simp add: first_occurrence_def occurs_at_match)
    next
      case (Suc k)
      have "(\<forall>j<Suc k. \<not> occurs_at p (c # t) j) \<longleftrightarrow> (\<forall>j<k. \<not> occurs_at p t j)"
        using False by (auto simp: occurs_at_match less_Suc_eq_0_disj)
      then show ?thesis using Suc by (simp add: first_occurrence_def occurs_at_match)
    qed
    with False Cons.IH show ?thesis by auto
  qed
qed

lemma occurs_first: "occurs_at p t i \<Longrightarrow> \<exists>s. first_occurrence p t s"
  unfolding first_occurrence_def by (metis exists_least_iff)

lemma search_None_iff: "search p t = None \<longleftrightarrow> (\<forall>i. \<not> occurs_at p t i)"
proof
  assume none: "search p t = None"
  show "\<forall>i. \<not> occurs_at p t i"
  proof (rule allI, rule notI)
    fix i
    assume "occurs_at p t i"
    then obtain k where "first_occurrence p t k" using occurs_first by blast
    then have "search p t = Some k" by (simp add: search_Some_iff)
    with none show False by simp
  qed
next
  assume "\<forall>i. \<not> occurs_at p t i"
  then show "search p t = None"
    by (metis search_Some_iff first_occurrence_def not_Some_eq)
qed

lemma chunks_length: "length (chunk_markdown_by_names t names) = length names"
  by (induction names) auto

lemma chunks_nth:
  "i < length names \<Longrightarrow>
   chunk_markdown_by_names t names ! i =
     chunk_for t (names ! i) (if Suc i < length names then Some (names ! Suc i) else None)"
proof (induction names arbitrary: i)
  case Nil
  then show ?case by simp
next
  case (Cons nm rest)
  show ?case
  proof (cases i)
    case 0
    then show ?thesis by (cases rest) auto
  next
    case (Suc k)
    with Cons.prems have "k < length rest" by simp
    from Cons.IH[OF this] Suc show ?thesis by simp
  qed
qed

lemma slice_to_end: "slice t s (length t) = drop s t"
  by (simp add: slice_def)

text \<open>
  C6. Before chunking, every run of consecutive equal names is collapsed to its first
  row: the names that remain are the name list with adjacent duplicates removed, the
  rows that remain are exactly the rows whose name differs from the row before (and the
  first row), and the chunker returns one chunk per remaining row. Both
  \<^verbatim>\<open>extract_names_to_dataframe\<close> functions end with this filter.
\<close>

theorem consecutive_duplicates_collapse:
  "map name (drop_consecutive df) = remdups_adj (map name df)
   \<and> drop_consecutive df =
       map (\<lambda>i. df ! i)
         (filter (\<lambda>i. i = 0 \<or> name (df ! i) \<noteq> name (df ! (i - 1))) [0..<length df])
   \<and> map (name \<circ> fst) (add_chunks_to_dataframe (drop_consecutive df) t)
       = remdups_adj (map name df)
   \<and> (data \<noteq> [] \<longrightarrow>
        extract_names_to_dataframe_portrait data = Inr (drop_consecutive data)
      \<and> extract_names_to_dataframe_all data
          = Inr (drop_consecutive (sort_key (\<lambda>r. (book_id r, page_number r)) data)))"
proof -
  have a: "map name (drop_consecutive df) = remdups_adj (map name df)"
    by (rule drop_consecutive_names)
  have "map (name \<circ> fst) (add_chunks_to_dataframe (drop_consecutive df) t)
          = map name (drop_consecutive df)"
    unfolding add_chunks_to_dataframe_def
    by (simp add: chunks_length flip: map_map)
  with a have c: "map (name \<circ> fst) (add_chunks_to_dataframe (drop_consecutive df) t)
          = remdups_adj (map name df)"
    by simp
  have d: "data \<noteq> [] \<longrightarrow>
        extract_names_to_dataframe_portrait data = Inr (drop_consecutive data)
      \<and> extract_names_to_dataframe_all data
          = Inr (drop_consecutive (sort_key (\<lambda>r. (book_id r, page_number r)) data))"
    by (simp add: extract_names_to_dataframe_portrait_def extract_names_to_dataframe_all_def)
  from a drop_consecutive_kept[of df] c d show ?thesis by blast
qed

text \<open>
  C3 (as amended). For names that all occur in the text, the segmenter returns one chunk
  per name. Chunk \<open>i\<close> is cut from the first occurrence \<open>s\<close> of name \<open>i\<close>, found
  without regard to case, up to a position \<open>e\<close>, and is the cut without its leading
  and trailing whitespace. For the last name \<open>e\<close> is the end of the text. Otherwise the
  next name is looked for in the text behind the occurrence of name \<open>i\<close> (from
  \<open>s + len(name i)\<close> on), first as it is and then with every character removed that is
  neither a word character nor whitespace; \<open>e\<close> is the first occurrence found there,
  or the end of the text when there is none.
\<close>

theorem chunk_markdown_by_names_cuts:
  assumes "i < length names" and "\<forall>nm \<in> set names. \<exists>p. occurs_at nm t p"
  shows "length (chunk_markdown_by_names t names) = length names \<and>
    (\<exists>s e. first_occurrence (names ! i) t s
       \<and> chunk_markdown_by_names t names ! i = strip (slice t s e)
       \<and> is_trim_of (slice t s e) (chunk_markdown_by_names t names ! i)
       \<and> (if Suc i < length names
          then (\<forall>q. first_occurrence (names ! Suc i) (drop (s + length (names ! i)) t) q \<longrightarrow>
                  e = s + length (names ! i) + q)
             \<and> ((\<forall>q. \<not> occurs_at (names ! Suc i) (drop (s + length (names ! i)) t) q) \<longrightarrow>
                  (\<forall>q. first_occurrence (filter (\<lambda>c. is_word c \<or> is_space c) (names ! Suc i))
                          (drop (s + length (names ! i)) t) q \<longrightarrow>
                     e = s + length (names ! i) + q)
                \<and> ((\<forall>q. \<not> occurs_at (filter (\<lambda>c. is_word c \<or> is_space c) (names ! Suc i))
                            (drop (s + length (names ! i)) t) q) \<longrightarrow>
                     e = length t))
          else e = length t))"
proof -
  let ?nm = "names ! i"
  let ?nxt = "if Suc i < length names then Some (names ! Suc i) else None"
  from assms have "\<exists>p. occurs_at ?nm t p" by simp
  then obtain s where s: "first_occurrence ?nm t s" using occurs_first by blast
  then have "search ?nm t = Some s" by (simp add: search_Some_iff)
  then have fn: "find_name ?nm t = Some s" by (simp add: find_name_def)
  define e where "e = end_pos t ?nm ?nxt s"
  have ch: "chunk_markdown_by_names t names ! i = strip (slice t s e)"
    using assms(1) fn by (simp add: chunks_nth chunk_for_def e_def)
  have tr: "is_trim_of (slice t s e) (chunk_markdown_by_names t names ! i)"
    unfolding ch by (rule strip_is_trim)
  have ends: "if Suc i < length names
          then (\<forall>q. first_occurrence (names ! Suc i) (drop (s + length ?nm) t) q \<longrightarrow>
                  e = s + length ?nm + q)
             \<and> ((\<forall>q. \<not> occurs_at (names ! Suc i) (drop (s + length ?nm) t) q) \<longrightarrow>
                  (\<forall>q. first_occurrence (filter (\<lambda>c. is_word c \<or> is_space c) (names ! Suc i))
                          (drop (s + length ?nm) t) q \<longrightarrow>
                     e = s + length ?nm + q)
                \<and> ((\<forall>q. \<not> occurs_at (filter (\<lambda>c. is_word c \<or> is_space c) (names ! Suc i))
                            (drop (s + length ?nm) t) q) \<longrightarrow>
                     e = length t))
          else e = length t"
  proof (cases "Suc i < length names")
    case False
    then show ?thesis by (simp add: e_def end_pos_def)
  next
    case True
    let ?nn = "names ! Suc i"
    let ?rest = "drop (s + length ?nm) t"
    let ?simple = "filter (\<lambda>c. is_word c \<or> is_space c) ?nn"
    have e: "e = (case find_name ?nn ?rest of
                    Some off \<Rightarrow> s + length ?nm + off | None \<Rightarrow> length t)"
      using True by (simp add: e_def end_pos_def)
    have a: "e = s + length ?nm + q" if "first_occurrence ?nn ?rest q" for q
      using that e by (simp add: find_name_def flip: search_Some_iff)
    have b: "e = s + length ?nm + q"
      if "\<forall>q. \<not> occurs_at ?nn ?rest q" "first_occurrence ?simple ?rest q" for q
      using that e
      by (simp add: find_name_def simplified_name_def flip: search_Some_iff search_None_iff)
    have c: "e = length t"
      if "\<forall>q. \<not> occurs_at ?nn ?rest q" "\<forall>q. \<not> occurs_at ?simple ?rest q"
      using that e
      by (simp add: find_name_def simplified_name_def flip: search_None_iff)
    from a b c True show ?thesis by simp
  qed
  have len: "length (chunk_markdown_by_names t names) = length names"
    by (rule chunks_length)
  from s ch tr ends have "\<exists>s e. first_occurrence (names ! i) t s
       \<and> chunk_markdown_by_names t names ! i = strip (slice t s e)
       \<and> is_trim_of (slice t s e) (chunk_markdown_by_names t names ! i)
       \<and> (if Suc i < length names
          then (\<forall>q. first_occurrence (names ! Suc i) (drop (s + length (names ! i)) t) q \<longrightarrow>
                  e = s + length (names ! i) + q)
             \<and> ((\<forall>q. \<not> occurs_at (names ! Suc i) (drop (s + length (names ! i)) t) q) \<longrightarrow>
                  (\<forall>q. first_occurrence (filter (\<lambda>c. is_word c \<or> is_space c) (names ! Suc i))
                          (drop (s + length (names ! i)) t) q \<longrightarrow>
                     e = s + length (names ! i) + q)
                \<and> ((\<forall>q. \<not> occurs_at (filter (\<lambda>c. is_word c \<or> is_space c) (names ! Suc i))
                            (drop (s + length (names ! i)) t) q) \<longrightarrow>
                     e = length t))
          else e = length t)"
    by (intro exI[of _ s] exI[of _ e]) (simp only: simp_thms)
  with len show ?thesis by (rule conjI)
qed

text \<open>
  C7 (as amended). A name that does not occur in the text, whatever the case of its
  letters, is searched again in a shorter form: the name with every character removed
  that is neither a word character nor whitespace. The underscore is a word character
  and stays. When the shorter form does not occur either, the chunk of the name is the
  empty string; when it occurs, the chunk is cut from its first occurrence. In both
  cases nothing is raised and the row keeps its place: the table with chunks has the
  rows of the table without, in order.
\<close>

theorem name_not_found_retry_then_empty:
  assumes "i < length df" and "\<forall>p. \<not> occurs_at (name (df ! i)) t p"
  shows "map fst (add_chunks_to_dataframe df t) = df
    \<and> ((\<forall>p. \<not> occurs_at (filter (\<lambda>c. is_word c \<or> is_space c) (name (df ! i))) t p) \<longrightarrow>
          snd (add_chunks_to_dataframe df t ! i) = [])
    \<and> (\<forall>s. first_occurrence (filter (\<lambda>c. is_word c \<or> is_space c) (name (df ! i))) t s \<longrightarrow>
          snd (add_chunks_to_dataframe df t ! i)
            = strip (slice t s (end_pos t (name (df ! i))
                (if Suc i < length df then Some (name (df ! Suc i)) else None) s)))
    \<and> is_word (CHR ''_'') \<and> is_punctuation (CHR ''_'')"
proof -
  let ?names = "map name df"
  let ?nxt = "if Suc i < length df then Some (name (df ! Suc i)) else None"
  let ?simple = "filter (\<lambda>c. is_word c \<or> is_space c) (name (df ! i))"
  have len: "length (chunk_markdown_by_names t ?names) = length df"
    by (simp add: chunks_length)
  then have rows: "map fst (add_chunks_to_dataframe df t) = df"
    by (simp add: add_chunks_to_dataframe_def)
  have nth: "snd (add_chunks_to_dataframe df t ! i) = chunk_for t (name (df ! i)) ?nxt"
    using assms(1) len chunks_nth[of i ?names t]
    by (simp add: add_chunks_to_dataframe_def)
  from assms(2) have none: "search (name (df ! i)) t = None"
    by (simp add: search_None_iff)
  have a: "snd (add_chunks_to_dataframe df t ! i) = []"
    if "\<forall>p. \<not> occurs_at ?simple t p"
    using that none nth
    by (simp add: chunk_for_def find_name_def simplified_name_def flip: search_None_iff)
  have b: "snd (add_chunks_to_dataframe df t ! i)
             = strip (slice t s (end_pos t (name (df ! i)) ?nxt s))"
    if "first_occurrence ?simple t s" for s
    using that none nth
    by (simp add: chunk_for_def find_name_def simplified_name_def flip: search_Some_iff)
  have c: "is_word (CHR ''_'') \<and> is_punctuation (CHR ''_'')"
    by (simp add: is_word_def is_punctuation_def in_range_def)
  from rows a b c show ?thesis by blast
qed

section \<open>Properties of the reconciliation script\<close>

lemma loc_set_length: "length msk = length rs \<Longrightarrow> length (loc_set msk col v rs) = length rs"
  by (simp add: loc_set_def)

lemma loc_set_nth:
  "length msk = length rs \<Longrightarrow> i < length rs \<Longrightarrow>
   loc_set msk col v rs ! i = (if msk ! i then (rs ! i)(col := v) else rs ! i)"
  by (simp add: loc_set_def)

lemma update_columns_length:
  "length msk = length rs \<Longrightarrow> length (update_columns cols mc msk f rs) = length rs"
  by (induction cols arbitrary: rs) (auto simp: loc_set_length)

lemma update_columns_nth:
  "length msk = length rs \<Longrightarrow> i < length rs \<Longrightarrow>
   update_columns cols mc msk f rs ! i =
     (if msk ! i then (\<lambda>c. if c \<in> set cols \<and> c \<in> set mc then f c else (rs ! i) c) else rs ! i)"
proof (induction cols arbitrary: rs)
  case Nil
  then show ?case by simp
next
  case (Cons col cols)
  let ?rs' = "if col \<in> set mc then loc_set msk col (f col) rs else rs"
  have len: "length msk = length ?rs'" using Cons.prems by (simp add: loc_set_length)
  have i: "i < length ?rs'" using Cons.prems by (simp add: loc_set_length)
  show ?case
    using Cons.IH[OF len i] Cons.prems
    by (auto simp: loc_set_nth fun_eq_iff)
qed

lemma update_from_failed_row_length:
  "length (update_from_failed_row fc mc f rs) = length rs"
  by (simp add: update_from_failed_row_def Let_def update_columns_length)

lemma update_from_failed_row_nth:
  "i < length rs \<Longrightarrow>
   update_from_failed_row fc mc f rs ! i =
     (if mask_of f (rs ! i) then (\<lambda>c. if c \<in> set fc \<and> c \<in> set mc then f c else (rs ! i) c)
      else rs ! i)"
proof -
  assume i: "i < length rs"
  show ?thesis
  proof (cases "True \<in> set (map (mask_of f) rs)")
    case True
    then show ?thesis using i
      by (simp add: update_from_failed_row_def Let_def update_columns_nth)
  next
    case False
    then have "\<not> mask_of f (rs ! i)" using i by (auto simp: image_iff)
    with False show ?thesis by (simp add: update_from_failed_row_def Let_def)
  qed
qed

lemma update_from_failed_rows_length:
  "length (update_from_failed_rows fc mc fs rs) = length rs"
  by (induction fs arbitrary: rs) (auto simp: update_from_failed_row_length)

lemma update_from_failed_rows_snoc:
  "update_from_failed_rows fc mc (fs @ [f]) rs
     = update_from_failed_row fc mc f (update_from_failed_rows fc mc fs rs)"
  by (induction fs arbitrary: rs) auto

lemma mask_of_keys:
  "r' ''name'' = r ''name'' \<Longrightarrow> r' ''book_id'' = r ''book_id'' \<Longrightarrow> mask_of f r' = mask_of f r"
  by (simp add: mask_of_def)

lemma mask_of_same:
  "mask_of f r \<Longrightarrow> f ''name'' = r ''name'' \<and> f ''book_id'' = r ''book_id''"
  by (auto simp: mask_of_def cell_eq_def split: option.splits)

lemma matching_snoc:
  "matching (fs @ [f]) r = (if mask_of f r then matching fs r @ [f] else matching fs r)"
  by (simp add: matching_def)

lemma matching_mask: "m \<in> set (matching fs r) \<Longrightarrow> mask_of m r"
  by (simp add: matching_def)

lemma overwrite_keys:
  assumes "\<forall>m \<in> set ms. mask_of m r"
  shows "overwrite fc mc ms r ''name'' = r ''name'' \<and> overwrite fc mc ms r ''book_id'' = r ''book_id''"
proof (cases ms)
  case Nil
  then show ?thesis by (simp add: overwrite_def)
next
  case (Cons m ms')
  then have "last ms \<in> set ms" by simp
  with assms have "mask_of (last ms) r" by blast
  then have "last ms ''name'' = r ''name''" "last ms ''book_id'' = r ''book_id''"
    using mask_of_same by blast+
  with Cons show ?thesis by (simp add: overwrite_def)
qed

lemma overwrite_snoc:
  "(\<lambda>c. if c \<in> set fc \<and> c \<in> set mc then f c else overwrite fc mc ms r c)
     = overwrite fc mc (ms @ [f]) r"
proof (rule ext)
  fix c
  have "ms @ [f] \<noteq> []" by simp
  then obtain x xs where x: "ms @ [f] = x # xs" by (cases "ms @ [f]") auto
  have l: "last (x # xs) = f" unfolding x[symmetric] by simp
  have "overwrite fc mc (ms @ [f]) r c
          = (if c \<in> set fc \<and> c \<in> set mc then f c else r c)"
    unfolding x overwrite_def list.case l ..
  moreover have "c \<notin> set fc \<or> c \<notin> set mc \<Longrightarrow> overwrite fc mc ms r c = r c"
    by (cases ms) (auto simp: overwrite_def)
  ultimately show "(if c \<in> set fc \<and> c \<in> set mc then f c else overwrite fc mc ms r c)
            = overwrite fc mc (ms @ [f]) r c"
    by auto
qed

lemma update_from_failed_rows_overwrite:
  assumes "i < length rs"
  shows "update_from_failed_rows fc mc fs rs ! i = overwrite fc mc (matching fs (rs ! i)) (rs ! i)"
proof (induction fs rule: rev_induct)
  case Nil
  then show ?case by (simp add: matching_def overwrite_def)
next
  case (snoc f fs)
  let ?cur = "update_from_failed_rows fc mc fs rs"
  let ?r = "rs ! i"
  have i': "i < length ?cur" using assms by (simp add: update_from_failed_rows_length)
  have "\<forall>m \<in> set (matching fs ?r). mask_of m ?r" using matching_mask by blast
  from overwrite_keys[OF this] snoc.IH
  have "(?cur ! i) ''name'' = ?r ''name''" and "(?cur ! i) ''book_id'' = ?r ''book_id''"
    by simp_all
  then have mk: "mask_of f (?cur ! i) = mask_of f ?r" by (rule mask_of_keys)
  have step: "update_from_failed_rows fc mc (fs @ [f]) rs ! i
      = (if mask_of f ?r
         then (\<lambda>c. if c \<in> set fc \<and> c \<in> set mc then f c else (?cur ! i) c)
         else ?cur ! i)"
    unfolding update_from_failed_rows_snoc update_from_failed_row_nth[OF i'] mk ..
  show ?case
  proof (cases "mask_of f ?r")
    case True
    with step have "update_from_failed_rows fc mc (fs @ [f]) rs ! i
        = (\<lambda>c. if c \<in> set fc \<and> c \<in> set mc then f c else overwrite fc mc (matching fs ?r) ?r c)"
      by (simp only: snoc.IH if_True)
    also have "\<dots> = overwrite fc mc (matching fs ?r @ [f]) ?r" by (rule overwrite_snoc)
    finally show ?thesis using True by (simp only: matching_snoc if_True)
  next
    case False
    with step have "update_from_failed_rows fc mc (fs @ [f]) rs ! i = ?cur ! i"
      by (simp only: if_False)
    with False show ?thesis by (simp only: matching_snoc snoc.IH if_False)
  qed
qed

text \<open>
  C1 (as amended). When the retry loop runs to its end, the merged frame has the rows
  and columns of the base frame. A base row that no retry row matches on (name, book id)
  is unchanged. A base row that is matched takes, in every column that both frames
  have, the value of the last retry row that matches it, whether that value is missing
  or not; its other columns are unchanged.
\<close>

theorem merge_failed_takes_retry_values:
  assumes "merge_failed df_main df_failed = Inr df_merged" and "i < length (rows df_main)"
  shows "length (rows df_merged) = length (rows df_main)
    \<and> columns df_merged = columns df_main
    \<and> (case matching (rows df_failed) (rows df_main ! i) of
          [] \<Rightarrow> rows df_merged ! i = rows df_main ! i
        | ms \<Rightarrow> \<forall>c. (rows df_merged ! i) c =
                  (if c \<in> set (columns df_failed) \<and> c \<in> set (columns df_main) then last ms c
                   else (rows df_main ! i) c))"
proof (cases "rows df_failed = []")
  case True
  with assms(1) have "df_merged = df_main" by (simp add: merge_failed_def)
  with True show ?thesis by (simp add: matching_def)
next
  case False
  with assms(1) have m: "df_merged = df_main\<lparr>rows :=
       update_from_failed_rows (columns df_failed) (columns df_main) (rows df_failed) (rows df_main)\<rparr>"
    by (auto simp: merge_failed_def split: if_splits)
  then have len: "length (rows df_merged) = length (rows df_main)"
    and cols: "columns df_merged = columns df_main"
    by (simp_all add: update_from_failed_rows_length)
  have "rows df_merged ! i
          = overwrite (columns df_failed) (columns df_main)
              (matching (rows df_failed) (rows df_main ! i)) (rows df_main ! i)"
    using m update_from_failed_rows_overwrite[OF assms(2)] by simp
  then have "case matching (rows df_failed) (rows df_main ! i) of
          [] \<Rightarrow> rows df_merged ! i = rows df_main ! i
        | ms \<Rightarrow> \<forall>c. (rows df_merged ! i) c =
                  (if c \<in> set (columns df_failed) \<and> c \<in> set (columns df_main) then last ms c
                   else (rows df_main ! i) c)"
    by (cases "matching (rows df_failed) (rows df_main ! i)") (simp_all add: overwrite_def)
  with len cols show ?thesis by blast
qed

lemma script_to_line_50_never_returns:
  "script_to_line_50 df_main df_failed df_portrait_single df_next_page_portraits \<noteq> Inr df"
  by (simp add: script_to_line_50_def split: sum.splits)

text \<open>
  C8 (the code departs from the claim). The retry loop keeps the number of rows of the
  base frame, as the claim says of the whole merge. But once the retry loop has run and
  the portrait frames have their columns, the script raises \<^verbatim>\<open>AttributeError\<close> at
  line 50 and stops: \<^verbatim>\<open>df_final\<close> of line 58 is not computed and no final dataset is
  written, for any input frames.
\<close>

theorem script_stops_at_line_50:
  assumes "merge_failed df_main df_failed = Inr df_merged"
    and "set [''name'', ''book_id'', ''image_filename''] \<subseteq> set (columns df_portrait_single)"
    and "set [''name'', ''book_id'', ''portrait_filename''] \<subseteq> set (columns df_next_page_portraits)"
  shows "length (rows df_merged) = length (rows df_main)
    \<and> script_to_line_50 df_main df_failed df_portrait_single df_next_page_portraits
          = Inl AttributeError"
proof -
  have "length (rows df_merged) = length (rows df_main)"
    using assms(1)
    by (auto simp: merge_failed_def update_from_failed_rows_length split: if_splits)
  moreover have "script_to_line_50 df_main df_failed df_portrait_single df_next_page_portraits
          = Inl AttributeError"
    using assms by (simp add: script_to_line_50_def select_columns_def)
  ultimately show ?thesis by simp
qed

section \<open>Properties of the book grouper\<close>

lemma append_to_mset:
  "mset (concat (map snd (append_to b f books))) = add_mset f (mset (concat (map snd books)))"
  by (induction books) auto

lemma append_to_mem: "\<exists>fs. (b, fs) \<in> set (append_to b f books) \<and> f \<in> set fs"
proof (induction books)
  case Nil
  show ?case by simp
next
  case (Cons x books)
  obtain k0 fs0 where x: "x = (k0, fs0)" by (cases x)
  show ?case
  proof (cases "k0 = b")
    case True
    with x show ?thesis by (intro exI[of _ "fs0 @ [f]"]) simp
  next
    case False
    from Cons obtain fs where "(b, fs) \<in> set (append_to b f books)" "f \<in> set fs" by blast
    with x False show ?thesis by (intro exI[of _ fs]) simp
  qed
qed

lemma append_to_keeps:
  "(k, fs) \<in> set books \<Longrightarrow> g \<in> set fs \<Longrightarrow>
   \<exists>fs'. (k, fs') \<in> set (append_to b f books) \<and> g \<in> set fs'"
proof (induction books)
  case Nil
  then show ?case by simp
next
  case (Cons x books)
  obtain k0 fs0 where x: "x = (k0, fs0)" by (cases x)
  show ?case
  proof (cases "k0 = b")
    case True
    show ?thesis
    proof (cases "(k, fs) = x")
      case same: True
      with x True Cons.prems show ?thesis by (intro exI[of _ "fs0 @ [f]"]) simp
    next
      case False
      with Cons.prems have "(k, fs) \<in> set books" by simp
      with x True Cons.prems show ?thesis by (intro exI[of _ fs]) simp
    qed
  next
    case False
    show ?thesis
    proof (cases "(k, fs) = x")
      case True
      with x False Cons.prems show ?thesis by (intro exI[of _ fs]) simp
    next
      case other: False
      with Cons obtain fs' where "(k, fs') \<in> set (append_to b f books)" "g \<in> set fs'" by auto
      with x False show ?thesis by (intro exI[of _ fs']) simp
    qed
  qed
qed

lemma append_to_ids:
  assumes "\<forall>(k, fs) \<in> set books. \<forall>g \<in> set fs. get_book_id g = k"
  shows "\<forall>(k, fs) \<in> set (append_to (get_book_id f) f books). \<forall>g \<in> set fs. get_book_id g = k"
  using assms
proof (induction books)
  case Nil
  then show ?case by simp
next
  case (Cons x books)
  obtain k0 fs0 where x: "x = (k0, fs0)" by (cases x)
  from Cons.prems have tl: "\<forall>(k, fs) \<in> set books. \<forall>g \<in> set fs. get_book_id g = k"
    and hd: "\<forall>g \<in> set fs0. get_book_id g = k0" using x by auto
  show ?case
  proof (cases "k0 = get_book_id f")
    case True
    with x tl hd show ?thesis by auto
  next
    case False
    with x hd Cons.IH[OF tl] show ?thesis by auto
  qed
qed

lemma group_files_snoc:
  "group_files (fs @ [f]) = append_to (get_book_id f) f (group_files fs)"
  by (simp add: group_files_def)

lemma group_files_mset: "mset (concat (map snd (group_files files))) = mset files"
  by (induction files rule: rev_induct) (simp_all add: group_files_snoc append_to_mset, simp add: group_files_def)

lemma group_files_mem:
  "f \<in> set files \<Longrightarrow> \<exists>fs. (get_book_id f, fs) \<in> set (group_files files) \<and> f \<in> set fs"
proof (induction files rule: rev_induct)
  case Nil
  then show ?case by simp
next
  case (snoc g gs)
  show ?case
  proof (cases "f = g")
    case True
    then show ?thesis unfolding group_files_snoc using append_to_mem by simp
  next
    case False
    with snoc obtain fs where "(get_book_id f, fs) \<in> set (group_files gs)" "f \<in> set fs" by auto
    then show ?thesis unfolding group_files_snoc by (rule append_to_keeps)
  qed
qed

lemma group_files_ids:
  "\<forall>(k, fs) \<in> set (group_files files). \<forall>g \<in> set fs. get_book_id g = k"
proof (induction files rule: rev_induct)
  case Nil
  then show ?case by (simp add: group_files_def)
next
  case (snoc f files)
  then show ?case unfolding group_files_snoc by (rule append_to_ids)
qed

lemma find_markdown_files_mset:
  "mset (concat (map snd (find_markdown_files files))) = mset files"
proof -
  have "mset (concat (map snd (map (\<lambda>(b, fs). (b, sort_key get_page_number fs)) books)))
          = mset (concat (map snd books))" for books :: "(string \<times> string list) list"
    by (induction books) auto
  then show ?thesis by (simp add: find_markdown_files_def group_files_mset)
qed

lemma find_markdown_files_mem:
  assumes "f \<in> set files"
  shows "\<exists>fs. (get_book_id f, fs) \<in> set (find_markdown_files files) \<and> f \<in> set fs"
proof -
  from group_files_mem[OF assms] obtain fs
    where a: "(get_book_id f, fs) \<in> set (group_files files)" and b: "f \<in> set fs" by blast
  from a have "(get_book_id f, sort_key get_page_number fs) \<in> set (find_markdown_files files)"
    unfolding find_markdown_files_def by force
  with b show ?thesis by (intro exI[of _ "sort_key get_page_number fs"]) simp
qed

lemma find_markdown_files_sorted:
  "(b, fs) \<in> set (find_markdown_files files) \<Longrightarrow> sorted (map get_page_number fs)"
  unfolding find_markdown_files_def by (auto simp: sorted_sort_key)

text \<open>
  C9 (as amended). The book grouper skips no file. Every file name that it is given is
  listed under the book id computed from it, the lists of all books together hold each
  given name exactly as often as it was given, and no error is raised. A name whose
  stem does not end in an underscore followed by digits gets the page number 0; a name
  whose stem has fewer than four parts between underscores is its own book id.
\<close>

theorem find_markdown_files_skips_nothing:
  assumes "f \<in> set md_files"
  shows "(\<exists>fs. (get_book_id f, fs) \<in> set (find_markdown_files md_files) \<and> f \<in> set fs)
    \<and> mset (concat (map snd (find_markdown_files md_files))) = mset md_files
    \<and> (page_suffix (remove_md f) = None \<longrightarrow> get_page_number f = 0)
    \<and> (length (split_underscore (remove_md f)) < 4 \<longrightarrow> get_book_id f = remove_md f)"
proof -
  have "page_suffix (remove_md f) = None \<longrightarrow> get_page_number f = 0"
    by (simp add: get_page_number_def)
  moreover have "length (split_underscore (remove_md f)) < 4 \<longrightarrow> get_book_id f = remove_md f"
    by (simp add: get_book_id_def Let_def)
  ultimately show ?thesis
    using find_markdown_files_mem[OF assms] find_markdown_files_mset[of md_files] by blast
qed

section \<open>Properties of the portrait association\<close>

lemma int_of_digits_snoc: "int_of_digits (s @ [c]) = 10 * int_of_digits s + digit_value c"
  by (simp add: int_of_digits_def)

lemma digit_value_zero: "digit_value (CHR ''0'') = 0"
  by (simp add: digit_value_def)

lemma int_of_digits_zeros: "int_of_digits (replicate m (CHR ''0'') @ s) = int_of_digits s"
proof -
  have "foldl (\<lambda>n c. 10 * n + digit_value c) 0 (replicate m (CHR ''0'')) = 0"
    by (induction m) (simp_all add: digit_value_zero)
  then show ?thesis by (simp add: int_of_digits_def)
qed

lemma digit_value_digit_char: "d < 10 \<Longrightarrow> digit_value (digit_char d) = int d"
  by (simp add: digit_value_def digit_char_def)

lemma int_of_digits_digits_of: "int_of_digits (digits_of n) = int n"
proof (induction n rule: digits_of.induct)
  case (1 n)
  show ?case
  proof (cases "n < 10")
    case True
    then show ?thesis
      by (subst digits_of.simps) (simp add: int_of_digits_def digit_value_digit_char)
  next
    case False
    have "int_of_digits (digits_of n) = 10 * int_of_digits (digits_of (n div 10)) + int (n mod 10)"
      using False by (subst digits_of.simps) (simp add: int_of_digits_snoc digit_value_digit_char)
    also have "\<dots> = 10 * int (n div 10) + int (n mod 10)" using 1[OF False] by simp
    also have "\<dots> = int n"
      by presburger
    finally show ?thesis .
  qed
qed

lemma int_of_digits_format: "0 \<le> k \<Longrightarrow> int_of_digits (format_04d k) = k"
  by (simp add: format_04d_def zfill_def int_of_digits_zeros int_of_digits_digits_of)

lemma current_at_digits: "current_at s = Some (bp, ds) \<Longrightarrow> ds \<noteq> [] \<and> (\<forall>c \<in> set ds. is_digit c)"
  by (auto simp: current_at_def Let_def split: if_splits dest: set_takeWhileD)

lemma current_match_digits:
  "current_match s = Some (bp, ds) \<Longrightarrow> ds \<noteq> [] \<and> (\<forall>c \<in> set ds. is_digit c)"
proof (induction s)
  case Nil
  then show ?case by simp
next
  case (Cons c s)
  then show ?case
    by (cases "current_at (c # s)") (auto dest: current_at_digits)
qed

lemma format_04d_not_same:
  assumes "ds \<noteq> []" and "\<forall>c \<in> set ds. is_digit c"
  shows "format_04d (int_of_digits ds - 1) \<noteq> ds"
proof
  assume eq: "format_04d (int_of_digits ds - 1) = ds"
  show False
  proof (cases "int_of_digits ds - 1 < 0")
    case True
    with eq have "ds = CHR ''-'' # zfill 3 (digits_of (nat (- (int_of_digits ds - 1))))"
      by (simp only: format_04d_def if_True)
    then have "hd ds = CHR ''-''" by (metis list.sel(1))
    moreover have "is_digit (hd ds)" using assms by simp
    ultimately show False by (simp add: is_digit_def in_range_def)
  next
    case False
    then have "int_of_digits (format_04d (int_of_digits ds - 1)) = int_of_digits ds - 1"
      by (intro int_of_digits_format) simp
    with eq show False by simp
  qed
qed

lemma last_filter_upt:
  assumes "filter P [0..<n] \<noteq> []"
  shows "P (last (filter P [0..<n])) \<and> last (filter P [0..<n]) < n
         \<and> (\<forall>j. last (filter P [0..<n]) < j \<and> j < n \<longrightarrow> \<not> P j)"
  using assms
proof (induction n)
  case 0
  then show ?case by simp
next
  case (Suc n)
  define F where "F = filter P [0..<n]"
  have split: "filter P [0..<Suc n] = (if P n then F @ [n] else F)"
    by (simp add: F_def)
  show ?case
  proof (cases "P n")
    case True
    then have l: "last (filter P [0..<Suc n]) = n" unfolding split by simp
    have "\<forall>j. n < j \<and> j < Suc n \<longrightarrow> \<not> P j" by auto
    with True show ?thesis unfolding l by simp
  next
    case False
    then have eq: "filter P [0..<Suc n] = F" unfolding split by simp
    from Suc.prems[unfolded eq] have "F \<noteq> []" .
    then have ih: "P (last F) \<and> last F < n \<and> (\<forall>j. last F < j \<and> j < n \<longrightarrow> \<not> P j)"
      using Suc.IH unfolding F_def by blast
    have "\<forall>j. last F < j \<and> j < Suc n \<longrightarrow> \<not> P j"
    proof (intro allI impI)
      fix j
      assume j: "last F < j \<and> j < Suc n"
      show "\<not> P j"
      proof (cases "j = n")
        case True
        with False show ?thesis by simp
      next
        case neq: False
        with j have "j < n" by simp
        with j ih show ?thesis by blast
      qed
    qed
    moreover from ih have "last F < Suc n" by simp
    ultimately show ?thesis unfolding eq using ih by blast
  qed
qed

lemma last_name_on_unique:
  "last_name_on b df i \<Longrightarrow> last_name_on b df k \<Longrightarrow> i = k"
proof (rule ccontr)
  assume a: "last_name_on b df i" and c: "last_name_on b df k" and "i \<noteq> k"
  then consider "i < k" | "k < i" by linarith
  then show False
  proof cases
    case 1
    with a c show False by (auto simp: last_name_on_def)
  next
    case 2
    with a c show False by (auto simp: last_name_on_def)
  qed
qed

lemma last_row_of_Some:
  assumes "last_row_of b df = Some i"
  shows "last_name_on b (map fst df) i"
proof -
  define P where "P = (\<lambda>k. book_id (fst (df ! k)) = b)"
  define F where "F = filter P [0..<length df]"
  have lr: "last_row_of b df = (case F of [] \<Rightarrow> None | k # ks \<Rightarrow> Some (last (k # ks)))"
    by (simp add: last_row_of_def F_def P_def)
  have ne: "F \<noteq> []" using assms unfolding lr by (cases F) simp_all
  have i: "last F = i" using assms unfolding lr by (cases F) simp_all
  from last_filter_upt[of P "length df"] ne
  have "P (last F) \<and> last F < length df \<and> (\<forall>j. last F < j \<and> j < length df \<longrightarrow> \<not> P j)"
    unfolding F_def by blast
  then have "P i" and "i < length df" and "\<forall>j. i < j \<and> j < length df \<longrightarrow> \<not> P j"
    unfolding i by blast+
  then have a: "i < length df" and b: "book_id (fst (df ! i)) = b"
    and c: "\<forall>j. i < j \<and> j < length df \<longrightarrow> book_id (fst (df ! j)) \<noteq> b"
    unfolding P_def by blast+
  from a b have "book_id (map fst df ! i) = b" by simp
  moreover from c have "\<forall>j. i < j \<and> j < length (map fst df) \<longrightarrow> book_id (map fst df ! j) \<noteq> b"
    by simp
  ultimately show ?thesis using a unfolding last_name_on_def by simp
qed

lemma last_row_of_None_iff:
  "last_row_of b df = None \<longleftrightarrow> (\<forall>r \<in> set df. book_id (fst r) \<noteq> b)"
proof -
  have "filter (\<lambda>i. book_id (fst (df ! i)) = b) [0..<length df] = []
          \<longleftrightarrow> (\<forall>i < length df. book_id (fst (df ! i)) \<noteq> b)"
    by (auto simp: filter_empty_conv)
  also have "\<dots> \<longleftrightarrow> (\<forall>r \<in> set df. book_id (fst r) \<noteq> b)"
    by (simp add: all_set_conv_all_nth)
  finally have "filter (\<lambda>i. book_id (fst (df ! i)) = b) [0..<length df] = []
          \<longleftrightarrow> (\<forall>r \<in> set df. book_id (fst r) \<noteq> b)" .
  moreover have "last_row_of b df = None
          \<longleftrightarrow> filter (\<lambda>i. book_id (fst (df ! i)) = b) [0..<length df] = []"
    by (simp add: last_row_of_def split: list.splits)
  ultimately show ?thesis by simp
qed

lemma last_row_of_Some_iff:
  "last_row_of b df = Some i \<longleftrightarrow> last_name_on b (map fst df) i"
proof
  assume "last_row_of b df = Some i"
  then show "last_name_on b (map fst df) i" by (rule last_row_of_Some)
next
  assume l: "last_name_on b (map fst df) i"
  then have "i < length df" and "book_id (fst (df ! i)) = b" by (auto simp: last_name_on_def)
  moreover from \<open>i < length df\<close> have "df ! i \<in> set df" by simp
  ultimately have "\<not> (\<forall>r \<in> set df. book_id (fst r) \<noteq> b)" by blast
  then obtain k where k: "last_row_of b df = Some k"
    using last_row_of_None_iff[of b df] by (cases "last_row_of b df") auto
  from last_row_of_Some[OF k] l have "k = i" by (rule last_name_on_unique)
  with k show "last_row_of b df = Some i" by simp
qed

lemma last_row_of_cong: "map fst df = map fst df' \<Longrightarrow> last_row_of b df = last_row_of b df'"
proof -
  assume eq: "map fst df = map fst df'"
  have "\<And>i. last_row_of b df = Some i \<longleftrightarrow> last_row_of b df' = Some i"
    unfolding last_row_of_Some_iff eq ..
  then have h: "\<And>i. last_row_of b df = Some i \<longleftrightarrow> last_row_of b df' = Some i" .
  show ?thesis
  proof (cases "last_row_of b df")
    case None
    have "last_row_of b df' \<noteq> Some i" for i
      using None h[of i] by simp
    then have "last_row_of b df' = None" by (cases "last_row_of b df'") auto
    with None show ?thesis by simp
  next
    case (Some a)
    then have "last_row_of b df' = Some a" using h by simp
    with Some show ?thesis by simp
  qed
qed

lemma associate_one_fst: "map fst (associate_one df fi) = map fst df"
proof -
  have "map fst (df[i := (fst (df ! i), p)]) = map fst df" for i and p :: string
  proof (cases "i < length df")
    case True
    then have "(map fst df)[i := fst (df ! i)] = map fst df"
      by (metis list_update_id nth_map)
    then show ?thesis by (simp add: map_update)
  next
    case False
    then have "length df \<le> i" by simp
    then have "df[i := (fst (df ! i), p)] = df" by (rule list_update_beyond)
    then show ?thesis by simp
  qed
  then show ?thesis
    by (simp add: associate_one_def split: option.splits)
qed

lemma associate_all_fst: "map fst (foldl associate_one df files) = map fst df"
  by (induction files arbitrary: df) (simp_all add: associate_one_fst)

lemma associate_one_length: "length (associate_one df fi) = length df"
proof -
  have "length (map fst (associate_one df fi)) = length (map fst df)"
    by (simp only: associate_one_fst)
  then show ?thesis by simp
qed

lemma associate_all_length: "length (foldl associate_one df files) = length df"
proof -
  have "length (map fst (foldl associate_one df files)) = length (map fst df)"
    by (simp only: associate_all_fst)
  then show ?thesis by simp
qed

text \<open>The page that an iteration writes to, when it writes at all.\<close>

lemma associate_one_hit:
  assumes "figure_match (first_line fi) = Some p"
    and "previous_book_id (file_name fi) = Some prev"
    and "last_row_of prev df = Some i"
  shows "associate_one df fi = df[i := (fst (df ! i), p)]"
  using assms by (simp add: associate_one_def)

lemma associate_one_miss:
  assumes "figure_match (first_line fi) = None \<or> previous_book_id (file_name fi) = None
           \<or> (\<exists>prev. previous_book_id (file_name fi) = Some prev \<and> last_row_of prev df = None)"
  shows "associate_one df fi = df"
  using assms by (auto simp: associate_one_def split: option.splits)

lemma associate_one_other_page:
  assumes "j < length df" and "previous_book_id (file_name fi) \<noteq> Some (book_id (fst (df ! j)))"
  shows "associate_one df fi ! j = df ! j"
proof (cases "figure_match (first_line fi)")
  case None
  then show ?thesis by (simp add: associate_one_def)
next
  case (Some p)
  show ?thesis
  proof (cases "previous_book_id (file_name fi)")
    case None
    with Some show ?thesis by (simp add: associate_one_def)
  next
    case prev: (Some prev)
    show ?thesis
    proof (cases "last_row_of prev df")
      case None
      with Some prev show ?thesis by (simp add: associate_one_def)
    next
      case i: (Some i)
      from last_row_of_Some[OF i] assms(1) have "book_id (fst (df ! i)) = prev"
        by (auto simp: last_name_on_def)
      with assms(2) prev have "i \<noteq> j" by auto
      with Some prev i show ?thesis by (simp add: associate_one_def)
    qed
  qed
qed

lemma associate_one_at:
  assumes "figure_match (first_line fi) = Some p"
    and "previous_book_id (file_name fi) = Some prev"
    and "map fst d = df"
    and "last_name_on prev df i"
  shows "associate_one d fi = d[i := (df ! i, p)]"
proof -
  from assms(3,4) have l: "last_row_of prev d = Some i"
    by (simp add: last_row_of_Some_iff)
  from assms(4) have "i < length df" by (simp add: last_name_on_def)
  with assms(3) have "fst (d ! i) = df ! i" by (metis nth_map length_map)
  with assms(1,2) l show ?thesis by (simp add: associate_one_def)
qed

lemma associate_one_none:
  assumes "previous_book_id (file_name fi) = Some prev"
    and "map fst d = df"
    and "\<forall>r \<in> set df. book_id r \<noteq> prev"
  shows "associate_one d fi = d"
proof -
  have "\<forall>r \<in> set d. book_id (fst r) \<noteq> prev"
  proof
    fix r
    assume "r \<in> set d"
    then have "fst r \<in> set (map fst d)" by simp
    with assms(2,3) show "book_id (fst r) \<noteq> prev" by simp
  qed
  then have "last_row_of prev d = None" by (simp add: last_row_of_None_iff)
  with assms(1) show ?thesis by (simp add: associate_one_def split: option.splits)
qed

lemma associate_all_keeps:
  assumes "i < length d"
    and "\<forall>g \<in> set gs. figure_match (first_line g) = None
           \<or> previous_book_id (file_name g) \<noteq> Some (book_id (fst (d ! i)))"
  shows "foldl associate_one d gs ! i = d ! i"
  using assms
proof (induction gs arbitrary: d)
  case Nil
  then show ?case by simp
next
  case (Cons g gs)
  have step: "associate_one d g ! i = d ! i"
  proof (cases "figure_match (first_line g)")
    case None
    then show ?thesis by (simp add: associate_one_def)
  next
    case (Some p)
    with Cons.prems(2) have "previous_book_id (file_name g) \<noteq> Some (book_id (fst (d ! i)))"
      by simp
    with Cons.prems(1) show ?thesis by (rule associate_one_other_page)
  qed
  have len: "i < length (associate_one d g)" using Cons.prems(1) by (simp add: associate_one_length)
  have "\<forall>h \<in> set gs. figure_match (first_line h) = None
           \<or> previous_book_id (file_name h) \<noteq> Some (book_id (fst (associate_one d g ! i)))"
    using Cons.prems(2) step by simp
  from Cons.IH[OF len this] step show ?case by simp
qed

lemma find_files_append:
  "find_files_starting_with_figures (xs @ ys)
     = find_files_starting_with_figures xs @ find_files_starting_with_figures ys"
  by (simp add: find_files_starting_with_figures_def)

lemma takeWhile_upto:
  "\<forall>x \<in> set xs. P x \<Longrightarrow> \<not> P y \<Longrightarrow> takeWhile P (xs @ y # ys) = xs"
  by (simp add: takeWhile_append2)

lemma dropWhile_upto:
  "\<forall>x \<in> set xs. P x \<Longrightarrow> \<not> P y \<Longrightarrow> dropWhile P (xs @ y # ys) = y # ys"
  by (simp add: dropWhile_append2)

lemma figure_match_standard:
  assumes "p \<noteq> []" and "CHR '')'' \<notin> set p"
  shows "figure_match (''![Figure](figures/'' @ p @ '')'' @ rest) = Some p"
proof -
  let ?P = "\<lambda>c. c \<noteq> CHR '')''"
  have all: "\<forall>x \<in> set p. ?P x" using assms(2) by auto
  have tw: "takeWhile ?P (p @ CHR '')'' # rest) = p"
    using all by (rule takeWhile_upto) simp
  have dw: "dropWhile ?P (p @ CHR '')'' # rest) = CHR '')'' # rest"
    using all by (rule dropWhile_upto) simp
  have "figure_at (''![Figure](figures/'' @ p @ '')'' @ rest) = Some p"
    using assms(1) tw dw by (simp add: figure_at_def startswith_def Let_def)
  then show ?thesis by simp
qed

lemma current_match_standard:
  assumes "d1 \<noteq> []" and "\<forall>c \<in> set d1. is_digit c"
    and "d2 \<noteq> []" and "\<forall>c \<in> set d2. is_digit c"
  shows "current_match (''digibok_'' @ d1 @ ''_'' @ d2 @ ''.md'' @ rest)
           = Some (''digibok_'' @ d1 @ ''_'', d2)"
proof -
  have nd1: "\<not> is_digit (CHR ''_'')" and nd2: "\<not> is_digit (CHR ''.'')"
    by (simp_all add: is_digit_def in_range_def)
  have t1: "takeWhile is_digit (d1 @ CHR ''_'' # d2 @ ''.md'' @ rest) = d1"
    using assms(2) nd1 by (rule takeWhile_upto)
  have r1: "dropWhile is_digit (d1 @ CHR ''_'' # d2 @ ''.md'' @ rest) = CHR ''_'' # d2 @ ''.md'' @ rest"
    using assms(2) nd1 by (rule dropWhile_upto)
  have t2: "takeWhile is_digit (d2 @ CHR ''.'' # ''md'' @ rest) = d2"
    using assms(4) nd2 by (rule takeWhile_upto)
  have r2: "dropWhile is_digit (d2 @ CHR ''.'' # ''md'' @ rest) = CHR ''.'' # ''md'' @ rest"
    using assms(4) nd2 by (rule dropWhile_upto)
  have "current_at (''digibok_'' @ d1 @ ''_'' @ d2 @ ''.md'' @ rest)
          = Some (''digibok_'' @ d1 @ ''_'', d2)"
    using assms(1,3) t1 r1 t2 r2 by (simp add: current_at_def startswith_def Let_def)
  then show ?thesis by simp
qed

text \<open>
  C2 (as amended). Take a file of the list of figure-starting files whose first line
  yields a portrait file name and whose name has the form \<^verbatim>\<open>digibok_<digits>_<digits>.md\<close>.
  The page before it is looked up by its id: the prefix of the file name followed by the
  page number minus one, written in decimal with at least four characters. The iteration
  for the file writes the portrait into the last row with that id and changes no other
  row; the row still holds it at the end unless a later file of the list resolves to
  the same id. That id is never the id of the file's own page. When no row has that id,
  the file changes nothing and the portrait stays unassociated. The rows keep their
  order and their other columns.
\<close>

theorem associate_portraits_with_names_previous_page:
  assumes "files = before @ fi # after"
    and "figure_match (first_line fi) = Some portrait"
    and "current_match (file_name fi) = Some (book_prefix, ds)"
    and "prev = book_prefix @ format_04d (int_of_digits ds - 1)"
  shows "(\<forall>i. last_name_on prev df i \<longrightarrow>
            (\<forall>d. map fst d = df \<longrightarrow> associate_one d fi = d[i := (df ! i, portrait)])
          \<and> ((\<forall>g \<in> set after. figure_match (first_line g) = None
                  \<or> previous_book_id (file_name g) \<noteq> Some prev) \<longrightarrow>
               associate_portraits_with_names df files ! i = (df ! i, portrait)))
    \<and> ((\<forall>r \<in> set df. book_id r \<noteq> prev) \<longrightarrow>
            (\<forall>d. map fst d = df \<longrightarrow> associate_one d fi = d)
          \<and> associate_portraits_with_names df files
              = associate_portraits_with_names df (before @ after))
    \<and> prev \<noteq> book_prefix @ ds
    \<and> (1 \<le> int_of_digits ds \<longrightarrow>
          int_of_digits (format_04d (int_of_digits ds - 1)) = int_of_digits ds - 1
          \<and> 4 \<le> length (format_04d (int_of_digits ds - 1)))
    \<and> map fst (associate_portraits_with_names df files) = df
    \<and> (\<forall>p rest. first_line fi = ''![Figure](figures/'' @ p @ '')'' @ rest \<and> p \<noteq> []
            \<and> CHR '')'' \<notin> set p \<longrightarrow> portrait = p)
    \<and> (\<forall>d1 d2 rest. file_name fi = ''digibok_'' @ d1 @ ''_'' @ d2 @ ''.md'' @ rest
            \<and> d1 \<noteq> [] \<and> list_all is_digit d1 \<and> d2 \<noteq> [] \<and> list_all is_digit d2 \<longrightarrow>
          book_prefix = ''digibok_'' @ d1 @ ''_'' \<and> ds = d2)"
proof -
  let ?d0 = "map (\<lambda>r. (r, [])) df"
  let ?d1 = "foldl associate_one ?d0 before"
  have pb: "previous_book_id (file_name fi) = Some prev"
    using assms(3,4) by (simp add: previous_book_id_def)
  have fst0: "map fst ?d0 = df" by (simp add: comp_def)
  have fst1: "map fst ?d1 = df" using fst0 by (simp add: associate_all_fst)
  have res: "associate_portraits_with_names df files
               = foldl associate_one (associate_one ?d1 fi) after"
    using assms(1) by (simp add: associate_portraits_with_names_def)
  have A: "(\<forall>d. map fst d = df \<longrightarrow> associate_one d fi = d[i := (df ! i, portrait)])
          \<and> ((\<forall>g \<in> set after. figure_match (first_line g) = None
                  \<or> previous_book_id (file_name g) \<noteq> Some prev) \<longrightarrow>
               associate_portraits_with_names df files ! i = (df ! i, portrait))"
    if l: "last_name_on prev df i" for i
  proof -
    have step: "associate_one d fi = d[i := (df ! i, portrait)]" if "map fst d = df" for d
      using assms(2) pb that l by (rule associate_one_at)
    from l have i: "i < length df" and bi: "book_id (df ! i) = prev"
      by (simp_all add: last_name_on_def)
    have len1: "length ?d1 = length df" using fst1 by (metis length_map)
    let ?d2 = "associate_one ?d1 fi"
    have d2: "?d2 = ?d1[i := (df ! i, portrait)]" using fst1 by (rule step)
    have i2: "i < length ?d2" using i len1 by (simp add: d2)
    have v2: "?d2 ! i = (df ! i, portrait)" using i len1 by (simp add: d2)
    have "associate_portraits_with_names df files ! i = (df ! i, portrait)"
      if "\<forall>g \<in> set after. figure_match (first_line g) = None
                  \<or> previous_book_id (file_name g) \<noteq> Some prev"
    proof -
      from that have "\<forall>g \<in> set after. figure_match (first_line g) = None
           \<or> previous_book_id (file_name g) \<noteq> Some (book_id (fst (?d2 ! i)))"
        using v2 bi by simp
      from associate_all_keeps[OF i2 this] v2 show ?thesis unfolding res by simp
    qed
    with step show ?thesis by blast
  qed
  have B: "(\<forall>d. map fst d = df \<longrightarrow> associate_one d fi = d)
          \<and> associate_portraits_with_names df files
              = associate_portraits_with_names df (before @ after)"
    if n: "\<forall>r \<in> set df. book_id r \<noteq> prev"
  proof -
    have step: "associate_one d fi = d" if "map fst d = df" for d
      using pb that n by (rule associate_one_none)
    then have "associate_one ?d1 fi = ?d1" using fst1 by blast
    then have "associate_portraits_with_names df files
                 = associate_portraits_with_names df (before @ after)"
      unfolding res by (simp add: associate_portraits_with_names_def)
    with step show ?thesis by blast
  qed
  from current_match_digits[OF assms(3)] have dg: "ds \<noteq> []" "\<forall>c \<in> set ds. is_digit c"
    by simp_all
  have C: "prev \<noteq> book_prefix @ ds"
    using format_04d_not_same[OF dg] assms(4) by simp
  have D: "1 \<le> int_of_digits ds \<longrightarrow>
          int_of_digits (format_04d (int_of_digits ds - 1)) = int_of_digits ds - 1
          \<and> 4 \<le> length (format_04d (int_of_digits ds - 1))"
  proof
    assume p: "1 \<le> int_of_digits ds"
    then have "int_of_digits (format_04d (int_of_digits ds - 1)) = int_of_digits ds - 1"
      by (intro int_of_digits_format) simp
    moreover have "4 \<le> length (zfill 4 (digits_of (nat (int_of_digits ds - 1))))"
      unfolding zfill_def length_append length_replicate by arith
    then have "4 \<le> length (format_04d (int_of_digits ds - 1))"
      using p by (simp add: format_04d_def)
    ultimately show "int_of_digits (format_04d (int_of_digits ds - 1)) = int_of_digits ds - 1
          \<and> 4 \<le> length (format_04d (int_of_digits ds - 1))" by simp
  qed
  have E: "map fst (associate_portraits_with_names df files) = df"
    using fst0 by (simp add: associate_portraits_with_names_def associate_all_fst)
  have F: "\<forall>p rest. first_line fi = ''![Figure](figures/'' @ p @ '')'' @ rest \<and> p \<noteq> []
            \<and> CHR '')'' \<notin> set p \<longrightarrow> portrait = p"
  proof (intro allI impI)
    fix p rest
    assume h: "first_line fi = ''![Figure](figures/'' @ p @ '')'' @ rest \<and> p \<noteq> []
            \<and> CHR '')'' \<notin> set p"
    then have "figure_match (first_line fi) = Some p"
      using figure_match_standard[of p rest] by simp
    with assms(2) show "portrait = p" by simp
  qed
  have G: "\<forall>d1 d2 rest. file_name fi = ''digibok_'' @ d1 @ ''_'' @ d2 @ ''.md'' @ rest
            \<and> d1 \<noteq> [] \<and> list_all is_digit d1 \<and> d2 \<noteq> [] \<and> list_all is_digit d2 \<longrightarrow>
          book_prefix = ''digibok_'' @ d1 @ ''_'' \<and> ds = d2"
  proof (intro allI impI)
    fix d1 d2 rest
    assume h: "file_name fi = ''digibok_'' @ d1 @ ''_'' @ d2 @ ''.md'' @ rest
            \<and> d1 \<noteq> [] \<and> list_all is_digit d1 \<and> d2 \<noteq> [] \<and> list_all is_digit d2"
    then have "current_match (file_name fi) = Some (''digibok_'' @ d1 @ ''_'', d2)"
      using current_match_standard[of d1 d2 rest] by (simp add: list_all_iff)
    with assms(3) show "book_prefix = ''digibok_'' @ d1 @ ''_'' \<and> ds = d2" by simp
  qed
  from A B C D E F G show ?thesis by blast
qed

section \<open>The segmenter on concrete texts\<close>

theorem consecutive_duplicates_collapse_witness:
  "map name (drop_consecutive
       [\<lparr>name = ''A'', book_id = ''b_0001'', page_number = 1\<rparr>,
        \<lparr>name = ''A'', book_id = ''b_0001'', page_number = 1\<rparr>,
        \<lparr>name = ''B'', book_id = ''b_0002'', page_number = 2\<rparr>]) = [''A'', ''B'']
   \<and> map snd (add_chunks_to_dataframe (drop_consecutive
       [\<lparr>name = ''A'', book_id = ''b_0001'', page_number = 1\<rparr>,
        \<lparr>name = ''A'', book_id = ''b_0001'', page_number = 1\<rparr>,
        \<lparr>name = ''B'', book_id = ''b_0002'', page_number = 2\<rparr>]) ''A x B y'')
       = [''A x'', ''B y'']"
  using consecutive_duplicates_collapse
    [of "[\<lparr>name = ''A'', book_id = ''b_0001'', page_number = 1\<rparr>,
          \<lparr>name = ''A'', book_id = ''b_0001'', page_number = 1\<rparr>,
          \<lparr>name = ''B'', book_id = ''b_0002'', page_number = 2\<rparr>]" "''A x B y''"
        "[\<lparr>name = ''A'', book_id = ''b_0001'', page_number = 1\<rparr>]"]
  by code_simp

text \<open>
  A text with Norwegian letters: the name is written in lower case and the text has it
  in capitals, and a no-break space stands before the next name.
\<close>

theorem chunk_markdown_by_names_cuts_witness:
  "first_occurrence [CHR 0xE5, CHR ''s''] (''xx '' @ [CHR 0xC5] @ ''S yy'' @ [CHR 0xA0] @ ''Berg zz'' @ [CHR 0x0A]) 3
   \<and> first_occurrence ''BERG'' (''xx '' @ [CHR 0xC5] @ ''S yy'' @ [CHR 0xA0] @ ''Berg zz'' @ [CHR 0x0A]) 9
   \<and> first_occurrence ''BERG''
        (drop (3 + length [CHR 0xE5, CHR ''s''])
           (''xx '' @ [CHR 0xC5] @ ''S yy'' @ [CHR 0xA0] @ ''Berg zz'' @ [CHR 0x0A])) 4
   \<and> chunk_markdown_by_names (''xx '' @ [CHR 0xC5] @ ''S yy'' @ [CHR 0xA0] @ ''Berg zz'' @ [CHR 0x0A])
        [[CHR 0xE5, CHR ''s''], ''BERG'']
      = [[CHR 0xC5] @ ''S yy'', ''Berg zz'']"
proof -
  let ?t = "''xx '' @ [CHR 0xC5] @ ''S yy'' @ [CHR 0xA0] @ ''Berg zz'' @ [CHR 0x0A]"
  let ?names = "[[CHR 0xE5, CHR ''s''], ''BERG'']"
  have f1: "first_occurrence [CHR 0xE5, CHR ''s''] ?t 3"
    unfolding search_Some_iff[symmetric] by code_simp
  have f2: "first_occurrence ''BERG'' ?t 9"
    unfolding search_Some_iff[symmetric] by code_simp
  have f3: "first_occurrence ''BERG'' (drop (3 + length [CHR 0xE5, CHR ''s'']) ?t) 4"
    unfolding search_Some_iff[symmetric] by code_simp
  have h1: "0 < length ?names" by simp
  have h2: "\<forall>nm \<in> set ?names. \<exists>p. occurs_at nm ?t p"
    using f1 f2 unfolding first_occurrence_def by auto
  have v: "chunk_markdown_by_names ?t ?names = [[CHR 0xC5] @ ''S yy'', ''Berg zz'']"
    by code_simp
  from chunk_markdown_by_names_cuts[OF h1 h2]
  have "length (chunk_markdown_by_names ?t ?names) = length ?names" by (rule conjunct1)
  with f1 f2 f3 v show ?thesis by simp
qed

theorem chunk_markdown_by_names_counterexample:
  "chunk_markdown_by_names ''Jo Ek\<newline>Ek Bo\<newline>'' [''Jo Ek'', ''Ek''] = [''Jo Ek'', ''Ek\<newline>Ek Bo'']
   \<and> spec_chunks ''Jo Ek\<newline>Ek Bo\<newline>'' [''Jo Ek'', ''Ek''] = [''Jo '', ''Ek\<newline>Ek Bo\<newline>'']"
  by code_simp

text \<open>
  A name with an underscore before its comma: the retry keeps the underscore and finds
  nothing, where the name without any punctuation is in the text.
\<close>

theorem name_not_found_counterexample:
  "without_punctuation ''OLSEN_, Anna'' = ''OLSEN Anna''
   \<and> search (without_punctuation ''OLSEN_, Anna'') ''xx OLSEN Anna yy'' = Some 3
   \<and> simplified_name ''OLSEN_, Anna'' = ''OLSEN_ Anna''
   \<and> search (simplified_name ''OLSEN_, Anna'') ''xx OLSEN Anna yy'' = None
   \<and> chunk_markdown_by_names ''xx OLSEN Anna yy'' [''OLSEN_, Anna''] = ['''']"
  by code_simp

theorem name_not_found_retry_then_empty_witness:
  "search (''ALN'' @ [CHR 0xC6] @ ''S, Ingeborg'') (''xx aln'' @ [CHR 0xE6] @ ''s ingeborg yy'') = None
   \<and> first_occurrence (filter (\<lambda>c. is_word c \<or> is_space c) (''ALN'' @ [CHR 0xC6] @ ''S, Ingeborg''))
        (''xx aln'' @ [CHR 0xE6] @ ''s ingeborg yy'') 3
   \<and> map snd (add_chunks_to_dataframe
        [\<lparr>name = ''ALN'' @ [CHR 0xC6] @ ''S, Ingeborg'', book_id = ''b_0001'', page_number = 1\<rparr>,
         \<lparr>name = ''NOBODY'', book_id = ''b_0001'', page_number = 1\<rparr>]
        (''xx aln'' @ [CHR 0xE6] @ ''s ingeborg yy''))
       = [''aln'' @ [CHR 0xE6] @ ''s ingeborg yy'', '''']"
proof -
  let ?nm = "''ALN'' @ [CHR 0xC6] @ ''S, Ingeborg''"
  let ?df = "[\<lparr>name = ?nm, book_id = ''b_0001'', page_number = 1\<rparr>,
         \<lparr>name = ''NOBODY'', book_id = ''b_0001'', page_number = 1\<rparr>]"
  let ?t = "''xx aln'' @ [CHR 0xE6] @ ''s ingeborg yy''"
  have s1: "search ?nm ?t = None" by code_simp
  have f: "first_occurrence (filter (\<lambda>c. is_word c \<or> is_space c) ?nm) ?t 3"
    unfolding search_Some_iff[symmetric] by code_simp
  have h1: "0 < length ?df" by simp
  have h2: "\<forall>p. \<not> occurs_at (name (?df ! 0)) ?t p"
    unfolding search_None_iff[symmetric] by code_simp
  have v: "map snd (add_chunks_to_dataframe ?df ?t) = [''aln'' @ [CHR 0xE6] @ ''s ingeborg yy'', '''']"
    by code_simp
  from name_not_found_retry_then_empty[OF h1 h2]
  have "map fst (add_chunks_to_dataframe ?df ?t) = ?df" by (rule conjunct1)
  with s1 f v show ?thesis by simp
qed

section \<open>The reconciliation script on concrete frames\<close>

theorem merge_failed_counterexample:
  "column_values ''biography_json'' (Inr (person_frame [person_row (Some ''text'') (Some ''Y'')]))
     = [Some ''Y'']
   \<and> column_values ''biography_json'' (Inr (person_frame [person_row (Some ''text'') None]))
     = [None]
   \<and> column_values ''biography_json''
       (merge_failed (person_frame [person_row (Some ''text'') (Some ''Y'')])
                     (person_frame [person_row (Some ''text'') None]))
     = [None]"
  by (simp add: column_values_def merge_failed_def person_frame_def person_row_def
      update_from_failed_row_def mask_of_def cell_eq_def loc_set_def)

theorem merge_failed_takes_retry_values_witness:
  "column_values ''biography_json''
       (merge_failed (person_frame [person_row (Some ''text'') None])
                     (person_frame [person_row None (Some ''Y'')]))
     = [Some ''Y'']
   \<and> column_values ''markdown_chunk''
       (merge_failed (person_frame [person_row (Some ''text'') None])
                     (person_frame [person_row None (Some ''Y'')]))
     = [None]"
proof -
  let ?main = "person_frame [person_row (Some ''text'') None]"
  let ?failed = "person_frame [person_row None (Some ''Y'')]"
  let ?merged = "?main\<lparr>rows := update_from_failed_rows (columns ?failed) (columns ?main)
                    (rows ?failed) (rows ?main)\<rparr>"
  have h1: "merge_failed ?main ?failed = Inr ?merged"
    by (simp add: merge_failed_def person_frame_def)
  have h2: "0 < length (rows ?main)" by (simp add: person_frame_def)
  have m: "matching (rows ?failed) (rows ?main ! 0) = [person_row None (Some ''Y'')]"
    by (simp add: matching_def person_frame_def person_row_def mask_of_def cell_eq_def)
  from merge_failed_takes_retry_values[OF h1 h2]
  have "\<forall>c. (rows ?merged ! 0) c =
          (if c \<in> set (columns ?failed) \<and> c \<in> set (columns ?main)
           then person_row None (Some ''Y'') c else (rows ?main ! 0) c)"
    and "length (rows ?merged) = length (rows ?main)"
    unfolding m by simp_all
  then have "(rows ?merged ! 0) ''biography_json'' = Some ''Y''"
    and "(rows ?merged ! 0) ''markdown_chunk'' = None"
    and "length (rows ?merged) = 1"
    by (simp_all add: person_frame_def person_row_def)
  then have "map (\<lambda>r. r ''biography_json'') (rows ?merged) = [Some ''Y'']"
    and "map (\<lambda>r. r ''markdown_chunk'') (rows ?merged) = [None]"
    by (cases "rows ?merged"; simp)+
  with h1 show ?thesis unfolding column_values_def by simp
qed

text \<open>
  One person with one portrait: the retry loop gives the base frame back, both portrait
  frames have their columns, and the script ends with the exception of line 50.
\<close>

theorem script_stops_at_line_50_witness:
  "merge_failed (person_frame [person_row (Some ''text'') (Some ''Y'')]) (person_frame [])
     = Inr (person_frame [person_row (Some ''text'') (Some ''Y'')])
   \<and> script_to_line_50 (person_frame [person_row (Some ''text'') (Some ''Y'')]) (person_frame [])
       (portrait_frame ''image_filename'' [portrait_row ''image_filename'' (Some ''p1.png'')])
       (portrait_frame ''portrait_filename'' [portrait_row ''portrait_filename'' None])
     = Inl AttributeError"
proof -
  let ?main = "person_frame [person_row (Some ''text'') (Some ''Y'')]"
  let ?single = "portrait_frame ''image_filename'' [portrait_row ''image_filename'' (Some ''p1.png'')]"
  let ?next = "portrait_frame ''portrait_filename'' [portrait_row ''portrait_filename'' None]"
  have h1: "merge_failed ?main (person_frame []) = Inr ?main"
    by (simp add: merge_failed_def person_frame_def)
  have h2: "set [''name'', ''book_id'', ''image_filename''] \<subseteq> set (columns ?single)"
    by (simp add: portrait_frame_def)
  have h3: "set [''name'', ''book_id'', ''portrait_filename''] \<subseteq> set (columns ?next)"
    by (simp add: portrait_frame_def)
  from script_stops_at_line_50[OF h1 h2 h3] h1 show ?thesis by simp
qed

section \<open>The book grouper on concrete file names\<close>

theorem find_markdown_files_counterexample:
  "page_suffix (remove_md ''notes.md'') = None
   \<and> get_page_number ''notes.md'' = 0
   \<and> get_book_id ''notes.md'' = ''notes''
   \<and> find_markdown_files [''bok_a_b_0057.md'', ''notes.md'']
       = [(''bok_a_b'', [''bok_a_b_0057.md'']), (''notes'', [''notes.md''])]"
  by code_simp

theorem find_markdown_files_skips_nothing_witness:
  "''notes.md'' \<in> set [''bok_a_b_0057.md'', ''notes.md'']
   \<and> page_suffix (remove_md ''notes.md'') = None
   \<and> length (split_underscore (remove_md ''notes.md'')) < 4
   \<and> (get_book_id ''notes.md'', [''notes.md''])
       \<in> set (find_markdown_files [''bok_a_b_0057.md'', ''notes.md''])
   \<and> get_page_number ''notes.md'' = 0
   \<and> get_book_id ''notes.md'' = remove_md ''notes.md''"
proof -
  have h: "''notes.md'' \<in> set [''bok_a_b_0057.md'', ''notes.md'']" by simp
  have a: "page_suffix (remove_md ''notes.md'') = None" by code_simp
  have b: "length (split_underscore (remove_md ''notes.md'')) < 4" by code_simp
  have c: "(get_book_id ''notes.md'', [''notes.md''])
       \<in> set (find_markdown_files [''bok_a_b_0057.md'', ''notes.md''])" by code_simp
  from find_markdown_files_skips_nothing[OF h] a b c h show ?thesis by simp
qed

section \<open>The portrait association on concrete pages\<close>

text \<open>
  Page 60 of a book whose pages are numbered without leading zeros starts with a figure;
  page 59 has a name. The id built for the page before is \<^verbatim>\<open>digibok_1_0059\<close>, no row
  has it, and the portrait is not associated.
\<close>

theorem associate_portraits_with_names_counterexample:
  "find_files_starting_with_figures
       [(''digibok_1_60.md'', ''![Figure](figures/p.png)\<newline>Born 1900'')]
     = [\<lparr>file_name = ''digibok_1_60.md'', first_line = ''![Figure](figures/p.png)''\<rparr>]
   \<and> figure_match ''![Figure](figures/p.png)'' = Some ''p.png''
   \<and> current_match ''digibok_1_60.md'' = Some (''digibok_1_'', ''60'')
   \<and> previous_book_id ''digibok_1_60.md'' = Some ''digibok_1_0059''
   \<and> associate_portraits_with_names
        [\<lparr>name = ''HANSEN, Ole'', book_id = ''digibok_1_59'', page_number = 59\<rparr>]
        (find_files_starting_with_figures
           [(''digibok_1_60.md'', ''![Figure](figures/p.png)\<newline>Born 1900'')])
     = [(\<lparr>name = ''HANSEN, Ole'', book_id = ''digibok_1_59'', page_number = 59\<rparr>, '''')]"
  by code_simp

theorem associate_portraits_with_names_previous_page_witness:
  "find_files_starting_with_figures
       [(''digibok_1_0002.md'', ''  ![Figure](figures/p2.png)\<newline>Born 1900''),
        (''digibok_1_0003.md'', ''![Figure](figures/p3.png)'')]
     = [\<lparr>file_name = ''digibok_1_0002.md'', first_line = ''![Figure](figures/p2.png)''\<rparr>,
        \<lparr>file_name = ''digibok_1_0003.md'', first_line = ''![Figure](figures/p3.png)''\<rparr>]
   \<and> last_name_on ''digibok_1_0001''
        [\<lparr>name = ''BERG, Anna'', book_id = ''digibok_1_0001'', page_number = 1\<rparr>,
         \<lparr>name = ''HANSEN, Ole'', book_id = ''digibok_1_0001'', page_number = 1\<rparr>,
         \<lparr>name = ''LIE, Per'', book_id = ''digibok_1_0002'', page_number = 2\<rparr>] 1
   \<and> associate_portraits_with_names
        [\<lparr>name = ''BERG, Anna'', book_id = ''digibok_1_0001'', page_number = 1\<rparr>,
         \<lparr>name = ''HANSEN, Ole'', book_id = ''digibok_1_0001'', page_number = 1\<rparr>,
         \<lparr>name = ''LIE, Per'', book_id = ''digibok_1_0002'', page_number = 2\<rparr>]
        [\<lparr>file_name = ''digibok_1_0002.md'', first_line = ''![Figure](figures/p2.png)''\<rparr>,
         \<lparr>file_name = ''digibok_1_0003.md'', first_line = ''![Figure](figures/p3.png)''\<rparr>]
     = [(\<lparr>name = ''BERG, Anna'', book_id = ''digibok_1_0001'', page_number = 1\<rparr>, ''''),
        (\<lparr>name = ''HANSEN, Ole'', book_id = ''digibok_1_0001'', page_number = 1\<rparr>, ''p2.png''),
        (\<lparr>name = ''LIE, Per'', book_id = ''digibok_1_0002'', page_number = 2\<rparr>, ''p3.png'')]"
proof -
  let ?df = "[\<lparr>name = ''BERG, Anna'', book_id = ''digibok_1_0001'', page_number = 1\<rparr>,
         \<lparr>name = ''HANSEN, Ole'', book_id = ''digibok_1_0001'', page_number = 1\<rparr>,
         \<lparr>name = ''LIE, Per'', book_id = ''digibok_1_0002'', page_number = 2\<rparr>]"
  let ?f2 = "\<lparr>file_name = ''digibok_1_0002.md'', first_line = ''![Figure](figures/p2.png)''\<rparr>"
  let ?f3 = "\<lparr>file_name = ''digibok_1_0003.md'', first_line = ''![Figure](figures/p3.png)''\<rparr>"
  have ff: "find_files_starting_with_figures
       [(''digibok_1_0002.md'', ''  ![Figure](figures/p2.png)\<newline>Born 1900''),
        (''digibok_1_0003.md'', ''![Figure](figures/p3.png)'')] = [?f2, ?f3]"
    by code_simp
  have h1: "[?f2, ?f3] = [] @ ?f2 # [?f3]" by simp
  have h2: "figure_match (first_line ?f2) = Some ''p2.png''" by code_simp
  have h3: "current_match (file_name ?f2) = Some (''digibok_1_'', ''0002'')" by code_simp
  have h4: "''digibok_1_0001'' = ''digibok_1_'' @ format_04d (int_of_digits ''0002'' - 1)"
    by code_simp
  have "last_row_of ''digibok_1_0001'' (map (\<lambda>r. (r, [])) ?df) = Some 1" by code_simp
  then have l: "last_name_on ''digibok_1_0001'' ?df 1"
    unfolding last_row_of_Some_iff by (simp add: comp_def)
  have later: "\<forall>g \<in> set [?f3]. figure_match (first_line g) = None
                  \<or> previous_book_id (file_name g) \<noteq> Some ''digibok_1_0001''"
    by code_simp
  have v: "associate_portraits_with_names ?df [?f2, ?f3]
     = [(\<lparr>name = ''BERG, Anna'', book_id = ''digibok_1_0001'', page_number = 1\<rparr>, ''''),
        (\<lparr>name = ''HANSEN, Ole'', book_id = ''digibok_1_0001'', page_number = 1\<rparr>, ''p2.png''),
        (\<lparr>name = ''LIE, Per'', book_id = ''digibok_1_0002'', page_number = 2\<rparr>, ''p3.png'')]"
    by code_simp
  from associate_portraits_with_names_previous_page[OF h1 h2 h3 h4, of ?df] l later
  have "associate_portraits_with_names ?df [?f2, ?f3] ! 1 = (?df ! 1, ''p2.png'')"
    by blast
  with ff l v show ?thesis by simp
qed

end
